theory Spec2Isabelle
  imports Main "HOL-Library.Word" "HOL-Library.Sublist"
begin

unbundle bit_operations_syntax

section \<open>Constants\<close>

text \<open>
  The enum of usbcat.c (lines 13-18) and the constants of the system headers the event
  loop uses, with their Linux values: the poll(2) event bits, the two errno values the
  loop looks at, the process exit codes and the libusb return code for success.
\<close>

type_synonym short = "16 word"

definition USB_XFER_SZ :: nat where "USB_XFER_SZ = 512"
definition USB_BUFS :: nat where "USB_BUFS = 2"

definition POLLIN :: short where "POLLIN = 0x001"
definition POLLOUT :: short where "POLLOUT = 0x004"
definition POLLERR :: short where "POLLERR = 0x008"
definition POLLHUP :: short where "POLLHUP = 0x010"
definition POLLNVAL :: short where "POLLNVAL = 0x020"

definition EINTR :: int where "EINTR = 4"
definition EAGAIN :: int where "EAGAIN = 11"

definition EXIT_SUCCESS :: int where "EXIT_SUCCESS = 0"
definition EXIT_FAILURE :: int where "EXIT_FAILURE = 1"
definition LIBUSB_SUCCESS :: int where "LIBUSB_SUCCESS = 0"
definition LIBUSB_ENDPOINT_DIR_MASK :: "8 word" where "LIBUSB_ENDPOINT_DIR_MASK = 0x80"

definition STDIN_FILENO :: int where "STDIN_FILENO = 0"
definition STDOUT_FILENO :: int where "STDOUT_FILENO = 1"

section \<open>Data model\<close>

text \<open>The completion statuses of libusb (enum libusb_transfer_status).\<close>

datatype libusb_transfer_status =
    LIBUSB_TRANSFER_COMPLETED
  | LIBUSB_TRANSFER_ERROR
  | LIBUSB_TRANSFER_TIMED_OUT
  | LIBUSB_TRANSFER_CANCELLED
  | LIBUSB_TRANSFER_STALL
  | LIBUSB_TRANSFER_NO_DEVICE
  | LIBUSB_TRANSFER_OVERFLOW

text \<open>
  The two queues of main are addressed through pointers (the user_data of a transfer,
  the local q of each block); a pointer to one of them is a value of \<open>qid\<close>.
\<close>

datatype qid = WriteQ | ReadQ

text \<open>
  struct buffer_t. A transfer handle is an index into the store of transfers, a data
  pointer is the number of the allocated block.
\<close>

record buffer_t =
  usb_xfer :: nat
  data :: nat

text \<open>
  struct buffer_queue_t. The array buf is a function of the index; an access at an index
  that is not below USB_BUFS is a fault of the model. pollfd is a pointer into the array
  fds (its index), or NULL.
\<close>

record buffer_queue_t =
  buf :: "nat \<Rightarrow> buffer_t"
  buf_tail :: "32 word"
  buf_head :: "32 word"
  pollfd :: "nat option"
  xfer_length :: "64 word"
  xfer_written :: "64 word"
  shutdown :: bool
  error :: bool

text \<open>struct pollfd.\<close>

record pollfd_t =
  fd :: int
  events :: short
  revents :: short

text \<open>
  The fields of struct libusb_transfer that the program reads or writes. \<open>in_flight\<close>
  is not a field of the C struct: it records that the transfer has been submitted and
  its completion has not been delivered yet, which is libusb's own bookkeeping.
\<close>

record libusb_transfer =
  endpoint :: "8 word"
  buffer :: nat
  length_x :: int
  actual_length :: int
  status :: libusb_transfer_status
  user_data :: "qid option"
  in_flight :: bool

text \<open>
  What the program does to the outside world and what it is told, in the order of the
  events (the most recent first): the read calls on standard input with their results,
  standard input reported with POLLHUP or POLLERR and without POLLIN (line 444), the
  write calls on standard output (offset in the buffer, count asked for, result), the
  transfers handed to libusb (queue, transfer, length), the completions libusb delivers,
  and the messages printed to standard error.
\<close>

datatype action =
    Read int
  | Hangup
  | Write "64 word" "64 word" int
  | Submit "qid option" nat int
  | Completion "qid option" nat libusb_transfer_status
  | Stderr string

text \<open>
  The state of main at the event loop: its two queues, the array fds, and libusb's
  transfers, the number of blocks malloc has handed out, and the actions so far.
\<close>

record state =
  usb_write_buf :: buffer_queue_t
  usb_read_buf :: buffer_queue_t
  fds :: "pollfd_t list"
  xfers :: "libusb_transfer list"
  heap_next :: nat
  trace :: "action list"

text \<open>
  How a piece of main ends: it goes on with a new state, the process returns from main or
  calls exit with a code, an assert fails (the source line of the assert), the program
  uses a pointer or an index that is not valid, or the answers given for the operating
  system and libusb are not ones they can give.
\<close>

datatype result =
    Running state
  | Exited int state
  | AssertFailed nat state
  | Fault state
  | Infeasible

section \<open>The environment\<close>

text \<open>
  The program is driven by what poll, read, write and libusb answer. These answers are
  the input of the model. The command line is reduced to the two endpoint numbers
  (negative: not given) and libusb's own descriptors with their event masks.
\<close>

record config =
  write_ep :: int
  read_ep :: int
  usb_fds :: "(int \<times> short) list"

text \<open>
  The memory main does not initialise: the two queue structs on its stack, and the
  revents fields of the array it allocates.
\<close>

record junk =
  stack_write :: buffer_queue_t
  stack_read :: buffer_queue_t
  heap_revents :: short

text \<open>One completion delivered by libusb_handle_events_timeout: the transfer, its
  status and actual length, and what libusb_submit_transfer returns if the callback
  submits the transfer again.\<close>

record completion =
  c_xfer :: nat
  c_status :: libusb_transfer_status
  c_actual_length :: int
  c_resubmit :: int

text \<open>
  The answers for one descriptor in one iteration: its revents, the result and errno
  of the one read or write made for it, the result of the one submission made for it,
  and, for a descriptor of libusb, the completions libusb delivers and what
  libusb_handle_events_timeout returns.
\<close>

record fd_resp =
  r_revents :: short
  io_ret :: int
  io_errno :: int
  submit_ret :: int
  completions :: "completion list"
  handle_ret :: int

record poll_resp =
  poll_ret :: int
  poll_errno :: int
  per_fd :: "fd_resp list"

text \<open>The answers of the calls made before the loop.\<close>

record init_resp =
  in_getfl :: int
  in_setfl :: int
  out_getfl :: int
  out_setfl :: int
  read_submit :: "int list"

section \<open>libusb\<close>

fun queue :: "qid \<Rightarrow> state \<Rightarrow> buffer_queue_t" where
  "queue WriteQ s = usb_write_buf s"
| "queue ReadQ s = usb_read_buf s"

fun put_queue :: "qid \<Rightarrow> buffer_queue_t \<Rightarrow> state \<Rightarrow> state" where
  "put_queue WriteQ q s = s\<lparr>usb_write_buf := q\<rparr>"
| "put_queue ReadQ q s = s\<lparr>usb_read_buf := q\<rparr>"

definition log :: "action \<Rightarrow> state \<Rightarrow> state" where
  "log a s = s\<lparr>trace := a # trace s\<rparr>"

text \<open>libusb_alloc_transfer(0): a new transfer, zeroed. Allocation is taken to succeed,
  as the program does.\<close>

definition libusb_alloc_transfer :: "state \<Rightarrow> nat \<times> state" where
  "libusb_alloc_transfer s =
     (length (xfers s),
      s\<lparr>xfers := xfers s @ [\<lparr>endpoint = 0, buffer = 0, length_x = 0, actual_length = 0,
            status = LIBUSB_TRANSFER_COMPLETED, user_data = None, in_flight = False\<rparr>]\<rparr>)"

definition malloc :: "state \<Rightarrow> nat \<times> state" where
  "malloc s = (heap_next s, s\<lparr>heap_next := Suc (heap_next s)\<rparr>)"

text \<open>libusb_fill_bulk_transfer: the endpoint is stored in an unsigned char.\<close>

definition libusb_fill_bulk_transfer ::
  "nat \<Rightarrow> int \<Rightarrow> nat \<Rightarrow> int \<Rightarrow> qid \<Rightarrow> state \<Rightarrow> result" where
  "libusb_fill_bulk_transfer h ep d len q s =
     (if h < length (xfers s)
      then Running (s\<lparr>xfers := (xfers s)[h := (xfers s ! h)
             \<lparr>endpoint := word_of_int ep, buffer := d, length_x := len, user_data := Some q\<rparr>]\<rparr>)
      else Fault s)"

text \<open>
  libusb_submit_transfer with the return code \<open>rc\<close> it gives. On success the transfer is
  in flight; libusb does not accept a transfer that is in flight already.
\<close>

definition libusb_submit_transfer :: "nat \<Rightarrow> int \<Rightarrow> state \<Rightarrow> result" where
  "libusb_submit_transfer h rc s =
     (if h < length (xfers s)
      then (if rc = LIBUSB_SUCCESS
            then (if in_flight (xfers s ! h) then Infeasible
                  else Running (log (Submit (user_data (xfers s ! h)) h (length_x (xfers s ! h)))
                         (s\<lparr>xfers := (xfers s)[h := (xfers s ! h)\<lparr>in_flight := True\<rparr>]\<rparr>)))
            else Running s)
      else Fault s)"

section \<open>The completion callback\<close>

text \<open>usb_callback (lines 70-120), for the transfer \<open>h\<close>; \<open>rc\<close> is what
  libusb_submit_transfer returns in the timed-out case.\<close>

definition usb_callback :: "nat \<Rightarrow> int \<Rightarrow> state \<Rightarrow> result" where
  "usb_callback h rc s =
     (if \<not> h < length (xfers s) then Fault s
      else let xfer = xfers s ! h in
      case user_data xfer of
        None \<Rightarrow> Fault s
      | Some qi \<Rightarrow>
         let q = queue qi s;
             new_tail = (buf_tail q + 1) mod of_nat USB_BUFS
         in
         if buf_head q = new_tail then AssertFailed 79 s
         else (case status xfer of
           LIBUSB_TRANSFER_COMPLETED \<Rightarrow>
             if \<not> unat (buf_tail q) < USB_BUFS then Fault s
             else let q1 = q\<lparr>buf := (buf q)(unat (buf_tail q) :=
                                 \<lparr>usb_xfer = h, data = buffer xfer\<rparr>)\<rparr>
             in
             if buf_head q1 = buf_tail q1
             then (let mask = (if endpoint xfer AND LIBUSB_ENDPOINT_DIR_MASK \<noteq> 0
                               then POLLOUT else POLLIN)
                   in case pollfd q1 of
                        None \<Rightarrow> Fault (put_queue qi q1 s)
                      | Some p \<Rightarrow>
                          if \<not> p < length (fds s) then Fault (put_queue qi q1 s)
                          else if events (fds s ! p) AND mask \<noteq> 0
                          then AssertFailed 90 (put_queue qi q1 s)
                          else if \<not> shutdown q1
                          then Running (put_queue qi
                                 (q1\<lparr>xfer_written := 0,
                                     xfer_length := word_of_int (actual_length xfer),
                                     buf_tail := new_tail\<rparr>)
                                 (s\<lparr>fds := (fds s)[p := (fds s ! p)
                                        \<lparr>events := events (fds s ! p) OR mask\<rparr>]\<rparr>))
                          else Running (put_queue qi (q1\<lparr>buf_tail := new_tail\<rparr>) s))
             else Running (put_queue qi (q1\<lparr>buf_tail := new_tail\<rparr>) s)
         | LIBUSB_TRANSFER_TIMED_OUT \<Rightarrow>
             (case libusb_submit_transfer h rc s of
                Running s' \<Rightarrow>
                  if rc \<noteq> LIBUSB_SUCCESS
                  then Exited 1 (log (Stderr ''Error re-submitting timed-out transfer'') s')
                  else Running s'
              | r \<Rightarrow> r)
         | _ \<Rightarrow>
             Running (put_queue qi (q\<lparr>error := True\<rparr>)
                        (log (Stderr ''USB transfer failed on endpoint'') s))))"

text \<open>
  libusb_handle_events_timeout with a zero timeout: libusb delivers the completions it
  has, one after the other, each to usb_callback. It completes only a transfer that is
  in flight, with an actual length between 0 and the length asked for; the transfer is
  no longer in flight when the callback runs.
\<close>

fun libusb_handle_events_timeout :: "completion list \<Rightarrow> state \<Rightarrow> result" where
  "libusb_handle_events_timeout [] s = Running s"
| "libusb_handle_events_timeout (c # cs) s =
     (if c_xfer c < length (xfers s) \<and> in_flight (xfers s ! c_xfer c)
         \<and> 0 \<le> c_actual_length c \<and> c_actual_length c \<le> length_x (xfers s ! c_xfer c)
      then (case usb_callback (c_xfer c) (c_resubmit c)
                   (log (Completion (user_data (xfers s ! c_xfer c)) (c_xfer c) (c_status c))
                      (s\<lparr>xfers := (xfers s)[c_xfer c := (xfers s ! c_xfer c)
                            \<lparr>status := c_status c, actual_length := c_actual_length c,
                             in_flight := False\<rparr>]\<rparr>)) of
              Running s' \<Rightarrow> libusb_handle_events_timeout cs s'
            | r \<Rightarrow> r)
      else Infeasible)"

section \<open>The event loop\<close>

text \<open>
  The block for standard input (lines 397-447), entered for the entry \<open>i\<close> of fds.
  read is asked for at most USB_XFER_SZ / 2 bytes and answers -1 or a count up to that.
\<close>

definition stdin_ready :: "config \<Rightarrow> fd_resp \<Rightarrow> nat \<Rightarrow> state \<Rightarrow> result" where
  "stdin_ready cfg r i s =
     (let q = usb_write_buf s in
      if revents (fds s ! i) AND POLLIN \<noteq> 0
      then
        if buf_head q = buf_tail q then AssertFailed 402 s
        else if \<not> unat (buf_head q) < USB_BUFS then Fault s
        else if \<not> (- 1 \<le> io_ret r \<and> io_ret r \<le> int (USB_XFER_SZ div 2)) then Infeasible
        else
          let b = buf q (unat (buf_head q));
              s1 = log (Read (io_ret r)) s
          in
          if io_ret r > 0
          then (case libusb_fill_bulk_transfer (usb_xfer b) (write_ep cfg) (data b) (io_ret r)
                       WriteQ s1 of
                  Running s2 \<Rightarrow>
                    (case libusb_submit_transfer (usb_xfer b) (submit_ret r) s2 of
                       Running s3 \<Rightarrow>
                         if submit_ret r \<noteq> LIBUSB_SUCCESS
                         then Exited EXIT_FAILURE
                                (log (Stderr ''Error submitting USB OUT transfer'') s3)
                         else
                           let new_head = (buf_head q + 1) mod of_nat USB_BUFS;
                               s4 = s3\<lparr>usb_write_buf := (usb_write_buf s3)\<lparr>buf_head := new_head\<rparr>\<rparr>
                           in
                           if new_head = buf_tail q
                           then Running (s4\<lparr>fds := (fds s4)[i := (fds s4 ! i)
                                   \<lparr>events := events (fds s4 ! i) AND NOT POLLIN\<rparr>]\<rparr>)
                           else Running s4
                     | x \<Rightarrow> x)
                | x \<Rightarrow> x)
          else if io_ret r = 0
          then Running (s1\<lparr>usb_write_buf := (usb_write_buf s1)\<lparr>shutdown := True\<rparr>\<rparr>)
          else if io_errno r \<noteq> EINTR
          then Exited EXIT_FAILURE (log (Stderr ''Error reading input'') s1)
          else Running s1
      else Running (log Hangup (s\<lparr>usb_write_buf := q\<lparr>shutdown := True\<rparr>\<rparr>)))"

text \<open>
  The block for standard output (lines 452-497). write is asked for the bytes of the
  buffer at the head that are not written yet and answers -1 or a count up to that.
\<close>

definition stdout_ready :: "config \<Rightarrow> fd_resp \<Rightarrow> nat \<Rightarrow> state \<Rightarrow> result" where
  "stdout_ready cfg r i s =
     (let q = usb_read_buf s in
      if buf_head q = buf_tail q then AssertFailed 455 s
      else if \<not> unat (buf_head q) < USB_BUFS then Fault s
      else case pollfd q of
        None \<Rightarrow> Fault s
      | Some p \<Rightarrow>
        if \<not> p < length (fds s) then Fault s
        else if \<not> (- 1 \<le> io_ret r \<and> io_ret r \<le> uint (xfer_length q - xfer_written q))
        then Infeasible
        else
          let b = buf q (unat (buf_head q));
              s1 = log (Write (xfer_written q) (xfer_length q - xfer_written q) (io_ret r)) s
          in
          if io_ret r \<ge> 0
          then
            let written = xfer_written q + word_of_int (io_ret r);
                s2 = s1\<lparr>usb_read_buf := q\<lparr>xfer_written := written\<rparr>\<rparr>
            in
            if written = xfer_length q
            then (case libusb_fill_bulk_transfer (usb_xfer b) (read_ep cfg) (data b)
                         (int USB_XFER_SZ) ReadQ s2 of
                    Running s3 \<Rightarrow>
                      (case libusb_submit_transfer (usb_xfer b) (submit_ret r) s3 of
                         Running s4 \<Rightarrow>
                           if submit_ret r \<noteq> LIBUSB_SUCCESS
                           then Exited EXIT_FAILURE
                                  (log (Stderr ''Error submitting USB IN transfer'') s4)
                           else
                             let q4 = usb_read_buf s4;
                                 new_head = (buf_head q4 + 1) mod of_nat USB_BUFS
                             in
                             if new_head \<noteq> buf_tail q4
                             then
                               if \<not> unat new_head < USB_BUFS then Fault s4
                               else if \<not> usb_xfer (buf q4 (unat new_head)) < length (xfers s4)
                               then Fault s4
                               else Running (s4\<lparr>usb_read_buf := q4
                                      \<lparr>buf_head := new_head, xfer_written := 0,
                                       xfer_length := word_of_int (actual_length
                                          (xfers s4 ! usb_xfer (buf q4 (unat new_head))))\<rparr>\<rparr>)
                             else Running (s4\<lparr>usb_read_buf := q4\<lparr>buf_head := new_head\<rparr>,
                                    fds := (fds s4)[i := (fds s4 ! i)
                                      \<lparr>events := events (fds s4 ! i) AND NOT POLLOUT\<rparr>]\<rparr>)
                       | x \<Rightarrow> x)
                  | x \<Rightarrow> x)
            else Running s2
          else if io_errno r \<noteq> EINTR
          then Exited EXIT_FAILURE (log (Stderr ''Error writing output'') s1)
          else Running s1)"

text \<open>The block for a descriptor of libusb (lines 500-508).\<close>

definition usb_ready :: "fd_resp \<Rightarrow> state \<Rightarrow> result" where
  "usb_ready r s =
     (case libusb_handle_events_timeout (completions r) s of
        Running s' \<Rightarrow>
          if handle_ret r \<noteq> LIBUSB_SUCCESS
          then Exited EXIT_FAILURE (log (Stderr ''Error handling libusb events'') s')
          else Running s'
      | x \<Rightarrow> x)"

text \<open>
  The for loop over fds (lines 391-511), from the entries that are left, each with the
  answers for it. \<open>ret\<close> is the variable ret of main: the count poll returned, which
  only the block for standard input decrements (the ret of line 496 is the result of
  write, declared in that block). After a descriptor of libusb the loop is left.
\<close>

fun scan :: "config \<Rightarrow> (nat \<times> fd_resp) list \<Rightarrow> int \<Rightarrow> state \<Rightarrow> result" where
  "scan cfg [] ret s = Running s"
| "scan cfg ((i, r) # rest) ret s =
     (if ret = 0 then Running s
      else if events (fds s ! i) AND revents (fds s ! i) \<noteq> 0
      then
        if fd (fds s ! i) = STDIN_FILENO
        then (case stdin_ready cfg r i s of
                Running s' \<Rightarrow> scan cfg rest (ret - 1) s'
              | x \<Rightarrow> x)
        else if fd (fds s ! i) = STDOUT_FILENO
        then (case stdout_ready cfg r i s of
                Running s' \<Rightarrow> scan cfg rest ret s'
              | x \<Rightarrow> x)
        else usb_ready r s
      else scan cfg rest ret s)"

text \<open>
  poll(fds, fd_num, -1). When it returns a positive count it has written the revents of
  every entry: only bits that were asked for, or POLLERR, POLLHUP and POLLNVAL, and the
  count is the number of entries with a revents that is not zero.
\<close>

definition poll :: "poll_resp \<Rightarrow> state \<Rightarrow> state option" where
  "poll p s =
     (if poll_ret p > 0
      then (if list_all2 (\<lambda>f r. r_revents r AND NOT (events f OR POLLERR OR POLLHUP OR POLLNVAL) = 0)
                 (fds s) (per_fd p)
               \<and> poll_ret p = int (length (filter (\<lambda>r. r_revents r \<noteq> 0) (per_fd p)))
            then Some (s\<lparr>fds := map2 (\<lambda>f r. f\<lparr>revents := r_revents r\<rparr>) (fds s) (per_fd p)\<rparr>)
            else None)
      else Some s)"

text \<open>The body of the while loop (lines 388-520).\<close>

definition loop_body :: "config \<Rightarrow> poll_resp \<Rightarrow> state \<Rightarrow> result" where
  "loop_body cfg p s =
     (case poll p s of
        None \<Rightarrow> Infeasible
      | Some s1 \<Rightarrow>
          if poll_ret p > 0
          then scan cfg (zip [0 ..< length (fds s1)] (per_fd p)) (poll_ret p) s1
          else if poll_errno p \<noteq> EINTR
          then Exited EXIT_FAILURE (log (Stderr ''Poll returned error'') s1)
          else Running s1)"

text \<open>The condition of the while loop (lines 383-386).\<close>

definition loop_cond :: "state \<Rightarrow> bool" where
  "loop_cond s =
     (\<not> error (usb_write_buf s)
      \<and> \<not> error (usb_read_buf s)
      \<and> (\<not> shutdown (usb_write_buf s)
         \<or> (buf_tail (usb_write_buf s) + 1) mod of_nat USB_BUFS \<noteq> buf_head (usb_write_buf s)))"

text \<open>
  The while loop and the return after it (lines 383-527), on the answers of the
  iterations to come. With no answers left and the condition true the program waits in
  poll: the result is \<open>Running\<close>.
\<close>

fun main_loop :: "config \<Rightarrow> poll_resp list \<Rightarrow> state \<Rightarrow> result" where
  "main_loop cfg [] s = (if loop_cond s then Running s else Exited EXIT_SUCCESS s)"
| "main_loop cfg (p # ps) s =
     (if loop_cond s
      then (case loop_body cfg p s of
              Running s' \<Rightarrow> main_loop cfg ps s'
            | x \<Rightarrow> x)
      else Exited EXIT_SUCCESS s)"

section \<open>Setting up the queues\<close>

text \<open>non_blocking (lines 58-68), with what the two fcntl calls return; diag exits with
  code 1 when a call has failed.\<close>

definition non_blocking :: "int \<Rightarrow> int \<Rightarrow> state \<Rightarrow> result" where
  "non_blocking getfl setfl s =
     (if getfl = - 1 then Exited 1 (log (Stderr ''F_GETFL'') s)
      else if setfl = - 1 then Exited 1 (log (Stderr ''F_SETFL'') s)
      else Running s)"

text \<open>The body of the for loop of lines 313-318, for the slot \<open>i\<close>.\<close>

definition alloc_write_slot :: "nat \<Rightarrow> state \<Rightarrow> state" where
  "alloc_write_slot i s =
     (let (h, s1) = libusb_alloc_transfer s;
          (d, s2) = malloc s1;
          q = usb_write_buf s2
      in s2\<lparr>usb_write_buf := q\<lparr>buf := (buf q)(i := \<lparr>usb_xfer = h, data = d\<rparr>)\<rparr>\<rparr>)"

text \<open>The block of lines 299-329.\<close>

definition init_write_queue :: "config \<Rightarrow> junk \<Rightarrow> init_resp \<Rightarrow> state \<Rightarrow> result" where
  "init_write_queue cfg j e s =
     (let s1 = s\<lparr>usb_write_buf := (usb_write_buf s)\<lparr>buf_head := 0, shutdown := False, error := False\<rparr>\<rparr>
      in case non_blocking (in_getfl e) (in_setfl e) s1 of
        Running s2 \<Rightarrow>
          if write_ep cfg \<ge> 0
          then
            let s3 = s2\<lparr>usb_write_buf := (usb_write_buf s2)
                        \<lparr>buf_tail := of_nat (USB_BUFS - 1), pollfd := Some (length (fds s2))\<rparr>\<rparr>;
                s4 = fold alloc_write_slot [0 ..< USB_BUFS - 1] s3
            in Running (s4\<lparr>fds := fds s4 @
                 [\<lparr>fd = STDIN_FILENO, events = POLLIN OR POLLHUP OR POLLERR,
                   revents = heap_revents j\<rparr>]\<rparr>)
          else Running (s2\<lparr>usb_write_buf := (usb_write_buf s2)\<lparr>buf_tail := 0, pollfd := None\<rparr>\<rparr>)
      | x \<Rightarrow> x)"

text \<open>The for loop of lines 345-359, on the slots that are left and the return codes of
  the submissions.\<close>

fun submit_reads :: "config \<Rightarrow> nat list \<Rightarrow> int list \<Rightarrow> state \<Rightarrow> result" where
  "submit_reads cfg [] rcs s = Running s"
| "submit_reads cfg (i # rest) [] s = Infeasible"
| "submit_reads cfg (i # rest) (rc # rcs) s =
     (let (h, s1) = libusb_alloc_transfer s;
          (d, s2) = malloc s1
      in case libusb_fill_bulk_transfer h (read_ep cfg) d (int USB_XFER_SZ) ReadQ s2 of
        Running s3 \<Rightarrow>
          (case libusb_submit_transfer h rc s3 of
             Running s4 \<Rightarrow>
               if rc \<noteq> LIBUSB_SUCCESS
               then Exited EXIT_FAILURE (log (Stderr ''Error submitting transfer'') s4)
               else submit_reads cfg rest rcs s4
           | x \<Rightarrow> x)
      | x \<Rightarrow> x)"

text \<open>The block of lines 331-369.\<close>

definition init_read_queue :: "config \<Rightarrow> junk \<Rightarrow> init_resp \<Rightarrow> state \<Rightarrow> result" where
  "init_read_queue cfg j e s =
     (let s1 = s\<lparr>usb_read_buf := (usb_read_buf s)
                  \<lparr>buf_head := 0, buf_tail := 0, shutdown := False, error := False\<rparr>\<rparr>
      in case non_blocking (out_getfl e) (out_setfl e) s1 of
        Running s2 \<Rightarrow>
          if read_ep cfg \<ge> 0
          then
            let s3 = s2\<lparr>usb_read_buf := (usb_read_buf s2)\<lparr>pollfd := Some (length (fds s2))\<rparr>\<rparr>
            in case submit_reads cfg [0 ..< USB_BUFS - 1] (read_submit e) s3 of
              Running s4 \<Rightarrow>
                Running (s4\<lparr>fds := fds s4 @
                  [\<lparr>fd = STDOUT_FILENO, events = POLLHUP OR POLLERR, revents = heap_revents j\<rparr>]\<rparr>)
            | x \<Rightarrow> x
          else Running (s2\<lparr>usb_read_buf := (usb_read_buf s2)\<lparr>pollfd := None\<rparr>\<rparr>)
      | x \<Rightarrow> x)"

text \<open>
  main from the queues on (lines 287-379): the two structs as the stack holds them, an
  empty array fds, the two blocks, then libusb's descriptors copied behind the
  descriptors of the standard streams.
\<close>

definition main_init :: "config \<Rightarrow> junk \<Rightarrow> init_resp \<Rightarrow> result" where
  "main_init cfg j e =
     (let s0 = \<lparr>usb_write_buf = stack_write j, usb_read_buf = stack_read j, fds = [],
                xfers = [], heap_next = 0, trace = []\<rparr>
      in case init_write_queue cfg j e s0 of
        Running s1 \<Rightarrow>
          (case init_read_queue cfg j e s1 of
             Running s2 \<Rightarrow>
               Running (s2\<lparr>fds := fds s2 @
                 map (\<lambda>(f, ev). \<lparr>fd = f, events = ev, revents = heap_revents j\<rparr>) (usb_fds cfg)\<rparr>)
           | x \<Rightarrow> x)
      | x \<Rightarrow> x)"

text \<open>main, from line 287 to its end.\<close>

definition main :: "config \<Rightarrow> junk \<Rightarrow> init_resp \<Rightarrow> poll_resp list \<Rightarrow> result" where
  "main cfg j e ps =
     (case main_init cfg j e of
        Running s \<Rightarrow> main_loop cfg ps s
      | x \<Rightarrow> x)"

section \<open>Definitions for the properties\<close>

text \<open>The state a piece of main ends in, when there is one.\<close>

fun state_of :: "result \<Rightarrow> state option" where
  "state_of (Running s) = Some s"
| "state_of (Exited c s) = Some s"
| "state_of (AssertFailed l s) = Some s"
| "state_of (Fault s) = Some s"
| "state_of Infeasible = None"

text \<open>
  The block for standard output entered several times in a row, once for each answer of
  write, as the loop does while the buffer at the head is not written out.
\<close>

fun stdout_ready_seq :: "config \<Rightarrow> fd_resp list \<Rightarrow> nat \<Rightarrow> state \<Rightarrow> result" where
  "stdout_ready_seq cfg [] i s = Running s"
| "stdout_ready_seq cfg (r # rs) i s =
     (case stdout_ready cfg r i s of
        Running s' \<Rightarrow> stdout_ready_seq cfg rs i s'
      | x \<Rightarrow> x)"

text \<open>
  The write calls that deliver a buffer of length \<open>len\<close> from the offset \<open>w\<close> on, when
  the calls return the counts \<open>ks\<close>: each call starts where the one before stopped and
  asks for all that is left.
\<close>

fun writes_of :: "64 word \<Rightarrow> 64 word \<Rightarrow> int list \<Rightarrow> action list" where
  "writes_of w len [] = []"
| "writes_of w len (k # ks) = Write w (len - w) k # writes_of (w + word_of_int k) len ks"

subsection \<open>Well-formed command lines\<close>

text \<open>
  The usage text asks for a read endpoint with bit 7 set (an IN endpoint); a write
  endpoint is an OUT endpoint, with bit 7 clear. The descriptors of libusb are not the
  descriptors of the standard streams.
\<close>

definition wf_config :: "config \<Rightarrow> bool" where
  "wf_config cfg =
     ((0 \<le> write_ep cfg \<longrightarrow> (word_of_int (write_ep cfg) :: 8 word) AND LIBUSB_ENDPOINT_DIR_MASK = 0)
      \<and> (0 \<le> read_ep cfg \<longrightarrow> (word_of_int (read_ep cfg) :: 8 word) AND LIBUSB_ENDPOINT_DIR_MASK \<noteq> 0)
      \<and> list_all (\<lambda>(f, ev). f \<noteq> STDIN_FILENO \<and> f \<noteq> STDOUT_FILENO) (usb_fds cfg))"

text \<open>
  Where the inbound direction lives: the entry of fds for standard output and the
  transfer of the inbound queue come after those of the outbound direction, when the
  outbound direction is enabled. The entry and the transfer of the outbound direction
  have the index 0.
\<close>

definition r_idx :: "config \<Rightarrow> nat" where
  "r_idx cfg = (if 0 \<le> write_ep cfg then 1 else 0)"

subsection \<open>Occupancy\<close>

text \<open>The number of buffers in a queue, from its tail back to its head.\<close>

definition occupied :: "buffer_queue_t \<Rightarrow> nat" where
  "occupied q = unat ((buf_tail q - buf_head q) mod of_nat USB_BUFS)"

text \<open>The number of transfers of a queue that libusb holds.\<close>

definition in_flight_count :: "qid \<Rightarrow> state \<Rightarrow> nat" where
  "in_flight_count q s = length (filter (\<lambda>x. in_flight x \<and> user_data x = Some q) (xfers s))"

subsection \<open>Reading the trace\<close>

text \<open>The statuses other than success and timeout: the callback treats them all as
  failures.\<close>

fun terminal :: "libusb_transfer_status \<Rightarrow> bool" where
  "terminal LIBUSB_TRANSFER_COMPLETED = False"
| "terminal LIBUSB_TRANSFER_TIMED_OUT = False"
| "terminal _ = True"

fun is_failure :: "qid \<Rightarrow> action \<Rightarrow> bool" where
  "is_failure q (Completion q' h st) = (q' = Some q \<and> terminal st)"
| "is_failure q _ = False"

fun is_submit :: "qid \<Rightarrow> action \<Rightarrow> bool" where
  "is_submit q (Submit q' h n) = (q' = Some q)"
| "is_submit q _ = False"

fun is_read :: "action \<Rightarrow> bool" where
  "is_read (Read n) = True"
| "is_read _ = False"

text \<open>End of input: a read of length zero, or a hangup.\<close>

fun is_eof :: "action \<Rightarrow> bool" where
  "is_eof (Read n) = (n = 0)"
| "is_eof Hangup = True"
| "is_eof _ = False"

text \<open>No transfer of the queue is submitted after a completion of the queue has
  failed. The trace has the most recent action first.\<close>

fun quiet_after_failure :: "qid \<Rightarrow> action list \<Rightarrow> bool" where
  "quiet_after_failure q [] = True"
| "quiet_after_failure q (a # tr) =
     ((is_submit q a \<longrightarrow> \<not> list_ex (is_failure q) tr) \<and> quiet_after_failure q tr)"

text \<open>No read is made after the end of input.\<close>

fun reads_stop :: "action list \<Rightarrow> bool" where
  "reads_stop [] = True"
| "reads_stop (a # tr) = ((is_read a \<longrightarrow> \<not> list_ex is_eof tr) \<and> reads_stop tr)"

text \<open>
  The most recent event of the outbound queue among its submissions and its successful
  completions is a submission: a buffer is with the device and its completion has not
  been seen.
\<close>

fun out_pending :: "action list \<Rightarrow> bool" where
  "out_pending [] = False"
| "out_pending (Submit q h n # tr) = (if q = Some WriteQ then True else out_pending tr)"
| "out_pending (Completion q h st # tr) =
     (if q = Some WriteQ \<and> st = LIBUSB_TRANSFER_COMPLETED then False else out_pending tr)"
| "out_pending (a # tr) = out_pending tr"

subsection \<open>The invariant of the loop\<close>

definition idx_ok :: "buffer_queue_t \<Rightarrow> bool" where
  "idx_ok q = (unat (buf_head q) < USB_BUFS \<and> unat (buf_tail q) < USB_BUFS)"

text \<open>The array fds holds standard input, standard output (each when its direction is
  enabled) and the descriptors of libusb, in this order; there is one transfer for each
  enabled direction.\<close>

definition shape_ok :: "config \<Rightarrow> state \<Rightarrow> bool" where
  "shape_ok cfg s =
     (map fd (fds s) =
        (if 0 \<le> write_ep cfg then [STDIN_FILENO] else [])
        @ (if 0 \<le> read_ep cfg then [STDOUT_FILENO] else [])
        @ map fst (usb_fds cfg)
      \<and> length (xfers s) =
          (if 0 \<le> write_ep cfg then 1 else 0) + (if 0 \<le> read_ep cfg then 1 else 0))"

text \<open>
  The outbound queue holds the free buffers. Its one buffer is either in the queue (head
  and tail differ: standard input is polled for reading, unless it is shut down) or not
  (head and tail are equal: standard input is not polled for reading); its transfer is in
  flight only in the second case and only while no error is recorded.
\<close>

definition write_ok :: "config \<Rightarrow> state \<Rightarrow> bool" where
  "write_ok cfg s =
     (if 0 \<le> write_ep cfg
      then idx_ok (usb_write_buf s)
        \<and> pollfd (usb_write_buf s) = Some 0
        \<and> (user_data (xfers s ! 0) = None \<or> user_data (xfers s ! 0) = Some WriteQ)
        \<and> (in_flight (xfers s ! 0) \<longrightarrow>
              user_data (xfers s ! 0) = Some WriteQ
              \<and> endpoint (xfers s ! 0) AND LIBUSB_ENDPOINT_DIR_MASK = 0
              \<and> buf_head (usb_write_buf s) = buf_tail (usb_write_buf s)
              \<and> \<not> error (usb_write_buf s))
        \<and> (buf_head (usb_write_buf s) \<noteq> buf_tail (usb_write_buf s) \<longrightarrow>
              \<not> error (usb_write_buf s)
              \<and> usb_xfer (buf (usb_write_buf s) (unat (buf_head (usb_write_buf s)))) = 0
              \<and> (\<not> shutdown (usb_write_buf s) \<longrightarrow> events (fds s ! 0) AND POLLIN \<noteq> 0))
        \<and> (buf_head (usb_write_buf s) = buf_tail (usb_write_buf s) \<longrightarrow>
              events (fds s ! 0) AND POLLIN = 0)
      else buf_head (usb_write_buf s) = 0 \<and> buf_tail (usb_write_buf s) = 0
        \<and> \<not> shutdown (usb_write_buf s) \<and> \<not> error (usb_write_buf s))"

text \<open>
  The inbound queue holds the buffers that have come from the device. Its one buffer is
  either in the queue (standard output is polled for writing) or not (it is not polled).
\<close>

definition read_ok :: "config \<Rightarrow> state \<Rightarrow> bool" where
  "read_ok cfg s =
     (if 0 \<le> read_ep cfg
      then idx_ok (usb_read_buf s)
        \<and> pollfd (usb_read_buf s) = Some (r_idx cfg)
        \<and> \<not> shutdown (usb_read_buf s)
        \<and> user_data (xfers s ! r_idx cfg) = Some ReadQ
        \<and> endpoint (xfers s ! r_idx cfg) AND LIBUSB_ENDPOINT_DIR_MASK \<noteq> 0
        \<and> (in_flight (xfers s ! r_idx cfg) \<longrightarrow>
              buf_head (usb_read_buf s) = buf_tail (usb_read_buf s)
              \<and> \<not> error (usb_read_buf s))
        \<and> (buf_head (usb_read_buf s) \<noteq> buf_tail (usb_read_buf s) \<longrightarrow>
              \<not> error (usb_read_buf s)
              \<and> usb_xfer (buf (usb_read_buf s) (unat (buf_head (usb_read_buf s)))) = r_idx cfg
              \<and> events (fds s ! r_idx cfg) AND POLLOUT \<noteq> 0)
        \<and> (buf_head (usb_read_buf s) = buf_tail (usb_read_buf s) \<longrightarrow>
              events (fds s ! r_idx cfg) AND POLLOUT = 0)
      else buf_head (usb_read_buf s) = 0 \<and> buf_tail (usb_read_buf s) = 0
        \<and> \<not> shutdown (usb_read_buf s) \<and> \<not> error (usb_read_buf s))"

text \<open>What the trace and the flags say about each other.\<close>

definition trace_ok :: "config \<Rightarrow> state \<Rightarrow> bool" where
  "trace_ok cfg s =
     ((list_ex (is_failure WriteQ) (trace s) \<longrightarrow> error (usb_write_buf s))
      \<and> (list_ex (is_failure ReadQ) (trace s) \<longrightarrow> error (usb_read_buf s))
      \<and> quiet_after_failure WriteQ (trace s)
      \<and> quiet_after_failure ReadQ (trace s)
      \<and> (list_ex is_eof (trace s) \<longleftrightarrow> shutdown (usb_write_buf s))
      \<and> reads_stop (trace s)
      \<and> (0 \<le> write_ep cfg \<and> \<not> error (usb_write_buf s) \<longrightarrow>
            (buf_head (usb_write_buf s) = buf_tail (usb_write_buf s)
               \<longleftrightarrow> out_pending (trace s))))"

definition loop_inv :: "config \<Rightarrow> state \<Rightarrow> bool" where
  "loop_inv cfg s = (shape_ok cfg s \<and> write_ok cfg s \<and> read_ok cfg s \<and> trace_ok cfg s)"

text \<open>
  What poll guarantees for an entry of fds: revents holds only bits of events, or
  POLLERR, POLLHUP and POLLNVAL.
\<close>

definition rev_ok :: "pollfd_t \<Rightarrow> bool" where
  "rev_ok f = (revents f AND NOT (events f OR POLLERR OR POLLHUP OR POLLNVAL) = 0)"

text \<open>
  How a piece of the loop may end: in a state of the invariant; no pointer is invalid;
  the one assertion that can fail is that of line 455, and only when standard output is
  reported without POLLOUT.
\<close>

definition res_ok :: "config \<Rightarrow> result \<Rightarrow> bool" where
  "res_ok cfg r =
     (case r of
        Running s \<Rightarrow> loop_inv cfg s
      | Exited c s \<Rightarrow> loop_inv cfg s
      | AssertFailed l s \<Rightarrow>
          loop_inv cfg s \<and> l = 455 \<and> revents (fds s ! r_idx cfg) AND POLLOUT = 0
      | Fault s \<Rightarrow> False
      | Infeasible \<Rightarrow> True)"

subsection \<open>Runs\<close>

fun is_running :: "result \<Rightarrow> bool" where
  "is_running (Running s) = True"
| "is_running _ = False"

text \<open>The queues have been set up and the program has reached the loop.\<close>

definition started :: "config \<Rightarrow> junk \<Rightarrow> init_resp \<Rightarrow> bool" where
  "started cfg j e = is_running (main_init cfg j e)"

text \<open>
  What holds of every piece of the loop, whatever the state it starts in: the trace only
  grows, and an exit from inside the loop has a code other than EXIT_SUCCESS.
\<close>

definition step_ok :: "state \<Rightarrow> result \<Rightarrow> bool" where
  "step_ok s r =
     (case r of
        Running s' \<Rightarrow> suffix (trace s) (trace s')
      | Exited c s' \<Rightarrow> suffix (trace s) (trace s') \<and> c \<noteq> EXIT_SUCCESS
      | AssertFailed l s' \<Rightarrow> suffix (trace s) (trace s')
      | Fault s' \<Rightarrow> suffix (trace s) (trace s')
      | Infeasible \<Rightarrow> True)"

subsection \<open>Concrete inputs\<close>

text \<open>What the stack of main may hold before the queues are initialised.\<close>

definition stack_garbage :: buffer_queue_t where
  "stack_garbage = \<lparr>buf = (\<lambda>_. \<lparr>usb_xfer = 7, data = 9\<rparr>), buf_tail = 5, buf_head = 3,
     pollfd = Some 4, xfer_length = 77, xfer_written = 99, shutdown = True, error = True\<rparr>"

definition garbage :: junk where
  "garbage = \<lparr>stack_write = stack_garbage, stack_read = stack_garbage, heap_revents = 0xFFFF\<rparr>"

text \<open>usbcat -r 0x81 -w 2, usbcat -r 0x81 and usbcat -w 2, with one descriptor of libusb.\<close>

definition cfg_both :: config where
  "cfg_both = \<lparr>write_ep = 2, read_ep = 0x81, usb_fds = [(5, POLLIN)]\<rparr>"

definition cfg_read_only :: config where
  "cfg_read_only = \<lparr>write_ep = - 1, read_ep = 0x81, usb_fds = [(5, POLLIN)]\<rparr>"

definition cfg_write_only :: config where
  "cfg_write_only = \<lparr>write_ep = 2, read_ep = - 1, usb_fds = [(5, POLLIN)]\<rparr>"

definition init_ok :: init_resp where
  "init_ok = \<lparr>in_getfl = 0, in_setfl = 0, out_getfl = 0, out_setfl = 0, read_submit = [0]\<rparr>"

text \<open>A descriptor with nothing to report, and the answers built from it.\<close>

definition idle :: fd_resp where
  "idle = \<lparr>r_revents = 0, io_ret = 0, io_errno = 0, submit_ret = 0, completions = [],
            handle_ret = 0\<rparr>"

definition io_event :: "short \<Rightarrow> int \<Rightarrow> int \<Rightarrow> fd_resp" where
  "io_event ev n e = idle\<lparr>r_revents := ev, io_ret := n, io_errno := e\<rparr>"

definition usb_event :: "nat \<Rightarrow> libusb_transfer_status \<Rightarrow> int \<Rightarrow> fd_resp" where
  "usb_event h st n = idle\<lparr>r_revents := POLLIN, completions :=
      [\<lparr>c_xfer = h, c_status = st, c_actual_length = n, c_resubmit = 0\<rparr>]\<rparr>"

definition one_ready :: "fd_resp list \<Rightarrow> poll_resp" where
  "one_ready rs = \<lparr>poll_ret = 1, poll_errno = 0, per_fd = rs\<rparr>"

text \<open>
  usbcat -r 0x81 after one inbound transfer of 10 bytes has completed: the buffer is
  queued at the head of the inbound queue and nothing of it is written yet.
\<close>

definition inbound_queued :: state where
  "inbound_queued =
     \<lparr>usb_write_buf = stack_garbage\<lparr>buf_head := 0, buf_tail := 0, pollfd := None,
                          shutdown := False, error := False\<rparr>,
      usb_read_buf = \<lparr>buf = (\<lambda>_. \<lparr>usb_xfer = 7, data = 9\<rparr>)(0 := \<lparr>usb_xfer = 0, data = 0\<rparr>),
                      buf_tail = 1, buf_head = 0, pollfd = Some 0, xfer_length = 10,
                      xfer_written = 0, shutdown = False, error = False\<rparr>,
      fds = [\<lparr>fd = 1, events = POLLHUP OR POLLERR OR POLLOUT, revents = 0\<rparr>,
             \<lparr>fd = 5, events = POLLIN, revents = POLLIN\<rparr>],
      xfers = [\<lparr>endpoint = 0x81, buffer = 0, length_x = 512, actual_length = 10,
                status = LIBUSB_TRANSFER_COMPLETED, user_data = Some ReadQ, in_flight = False\<rparr>],
      heap_next = 1,
      trace = [Completion (Some ReadQ) 0 LIBUSB_TRANSFER_COMPLETED, Submit (Some ReadQ) 0 512]\<rparr>"

section \<open>Properties of the blocks of the loop\<close>

subsection \<open>Arithmetic of the indices and of the cursor\<close>

lemma neg1_le_uint: "- 1 \<le> uint (x :: 'a::len word)"
  by (rule order_trans [of _ 0]) simp_all

lemma uint_cursor:
  fixes w len :: "64 word"
  assumes "0 \<le> k" "uint w + k \<le> uint len"
  shows "uint (w + word_of_int k) = uint w + k"
proof -
  have "uint len < 2 ^ 64" using uint_lt2p [of len] by simp
  moreover have "0 \<le> uint w" by simp
  ultimately have "(uint w + k) mod 2 ^ 64 = uint w + k"
    using assms by (simp add: mod_pos_pos_trivial)
  then show ?thesis
    by (simp add: uint_word_ariths uint_word_of_int mod_add_right_eq)
qed

lemma uint_remaining:
  fixes w len :: "64 word"
  assumes "uint w \<le> uint len"
  shows "uint (len - w) = uint len - uint w"
  using assms uint_sub_lem [of w len] by simp

lemma word_lt2:
  fixes h :: "32 word"
  assumes "unat h < USB_BUFS"
  shows "h = 0 \<or> h = 1"
proof -
  have "unat h = 0 \<or> unat h = 1" using assms by (auto simp: USB_BUFS_def)
  then show ?thesis
  proof
    assume "unat h = 0" then show ?thesis by (simp add: unat_eq_0)
  next
    assume "unat h = 1" then have "unat h = unat (1 :: 32 word)" by simp
    then have "h = 1" by (simp only: word_unat_eq_iff)
    then show ?thesis by simp
  qed
qed

lemma word2_succ:
  fixes h t :: "32 word"
  assumes "unat h < USB_BUFS" "unat t < USB_BUFS" "h \<noteq> t"
  shows "(h + 1) mod of_nat USB_BUFS = t"
proof -
  have "h = 0 \<or> h = 1" using assms(1) by (rule word_lt2)
  moreover have "t = 0 \<or> t = 1" using assms(2) by (rule word_lt2)
  ultimately show ?thesis using assms(3) by (auto simp: USB_BUFS_def)
qed

subsection \<open>The exit code after the loop\<close>

text \<open>
  Claim C1. The claim asks for a non-zero exit code when the loop is left because a
  completion has set an error flag. The code returns EXIT_SUCCESS after the loop whatever
  made it end. Here usbcat -r 0x81 gets a stall as the completion of its inbound transfer:
  the callback sets the error flag of the inbound queue, the loop is left, and main
  returns EXIT_SUCCESS.
\<close>

theorem error_flag_exit_code:
  "(case main cfg_read_only garbage init_ok
           [one_ready [idle, usb_event 0 LIBUSB_TRANSFER_STALL 0]] of
      Exited c s \<Rightarrow> c = EXIT_SUCCESS \<and> error (usb_read_buf s)
        \<and> Completion (Some ReadQ) 0 LIBUSB_TRANSFER_STALL \<in> set (trace s)
    | _ \<Rightarrow> False)"
  by code_simp

subsection \<open>Failing reads and writes\<close>

text \<open>
  Claim C2, as the claim states it, is false: a read that fails with EAGAIN is not a
  no-op. usbcat -r 0x81 -w 2 is told that standard input is readable, read fails with
  EAGAIN, and the process reports the error and returns EXIT_FAILURE.
\<close>

theorem eagain_is_fatal:
  "(case main cfg_both garbage init_ok
           [one_ready [io_event POLLIN (- 1) EAGAIN, idle, idle]] of
      Exited c s \<Rightarrow> c = EXIT_FAILURE \<and> hd (trace s) = Stderr ''Error reading input''
    | _ \<Rightarrow> False)"
  by code_simp

text \<open>
  Claim C2, amended: when the read on standard input or the write on standard output
  fails, the block leaves the state as it is if errno is EINTR (the call is made again
  when the descriptor is reported ready again), and with any other errno, EAGAIN
  included, the process prints a message and returns EXIT_FAILURE. The hypotheses say
  that the block reaches the call: the assertion holds and the pointers are valid.
\<close>

theorem io_failure:
  "(revents (fds s ! i) AND POLLIN \<noteq> 0
      \<and> buf_head (usb_write_buf s) \<noteq> buf_tail (usb_write_buf s)
      \<and> unat (buf_head (usb_write_buf s)) < USB_BUFS \<and> io_ret r = - 1
    \<longrightarrow> stdin_ready cfg r i s =
          (if io_errno r = EINTR then Running (log (Read (- 1)) s)
           else Exited EXIT_FAILURE (log (Stderr ''Error reading input'') (log (Read (- 1)) s))))
  \<and> (buf_head (usb_read_buf s) \<noteq> buf_tail (usb_read_buf s)
      \<and> unat (buf_head (usb_read_buf s)) < USB_BUFS \<and> pollfd (usb_read_buf s) = Some p
      \<and> p < length (fds s) \<and> io_ret r = - 1
    \<longrightarrow> stdout_ready cfg r i s =
          (let w = Write (xfer_written (usb_read_buf s))
                     (xfer_length (usb_read_buf s) - xfer_written (usb_read_buf s)) (- 1)
           in if io_errno r = EINTR then Running (log w s)
              else Exited EXIT_FAILURE (log (Stderr ''Error writing output'') (log w s))))"
  by (simp add: stdin_ready_def stdout_ready_def Let_def neg1_le_uint)

theorem io_failure_witness:
  "stdout_ready cfg_read_only (io_event POLLOUT (- 1) EINTR) 0 inbound_queued
     = Running (log (Write 0 10 (- 1)) inbound_queued)
   \<and> stdout_ready cfg_read_only (io_event POLLOUT (- 1) EAGAIN) 0 inbound_queued
     = Exited EXIT_FAILURE (log (Stderr ''Error writing output'')
         (log (Write 0 10 (- 1)) inbound_queued))"
  using io_failure [of inbound_queued 0 "io_event POLLOUT (- 1) EINTR" cfg_read_only 0]
        io_failure [of inbound_queued 0 "io_event POLLOUT (- 1) EAGAIN" cfg_read_only 0]
  by (simp add: inbound_queued_def io_event_def idle_def USB_BUFS_def EINTR_def EAGAIN_def)

subsection \<open>The condition of the loop\<close>

text \<open>
  Claim C4. The loop is left, with no further iteration, exactly when the error flag of
  one of the two queues is set, or the outbound queue is shut down and its tail advanced
  by one, modulo the number of slots, is its head; in every other state the body runs
  once more.
\<close>

theorem loop_exit_condition:
  "(if error (usb_write_buf s) \<or> error (usb_read_buf s)
         \<or> (shutdown (usb_write_buf s)
            \<and> (buf_tail (usb_write_buf s) + 1) mod of_nat USB_BUFS = buf_head (usb_write_buf s))
      then main_loop cfg (p # ps) s = Exited EXIT_SUCCESS s
      else main_loop cfg (p # ps) s =
             (case loop_body cfg p s of Running s' \<Rightarrow> main_loop cfg ps s' | x \<Rightarrow> x))"
  by (simp add: loop_cond_def)

subsection \<open>Partial writes\<close>

lemma one_partial:
  assumes "buf_head (usb_read_buf s) \<noteq> buf_tail (usb_read_buf s)"
    and "unat (buf_head (usb_read_buf s)) < USB_BUFS"
    and "pollfd (usb_read_buf s) = Some p" and "p < length (fds s)"
    and "0 \<le> io_ret r"
    and "uint (xfer_written (usb_read_buf s)) + io_ret r < uint (xfer_length (usb_read_buf s))"
  shows "stdout_ready cfg r i s =
     Running (log (Write (xfer_written (usb_read_buf s))
                     (xfer_length (usb_read_buf s) - xfer_written (usb_read_buf s)) (io_ret r)) s
        \<lparr>usb_read_buf := (usb_read_buf s)\<lparr>xfer_written :=
            xfer_written (usb_read_buf s) + word_of_int (io_ret r)\<rparr>\<rparr>)"
proof -
  let ?q = "usb_read_buf s"
  have le: "uint (xfer_written ?q) \<le> uint (xfer_length ?q)" using assms(5,6) by linarith
  have u: "uint (xfer_written ?q + word_of_int (io_ret r)) = uint (xfer_written ?q) + io_ret r"
    using assms(5,6) uint_cursor [of "io_ret r" "xfer_written ?q" "xfer_length ?q"] by simp
  then have ne: "xfer_written ?q + word_of_int (io_ret r) \<noteq> xfer_length ?q"
    using assms(6) by auto
  have rem: "io_ret r \<le> uint (xfer_length ?q - xfer_written ?q)"
    using uint_remaining [OF le] assms(6) by simp
  show ?thesis
    using assms(1-5) ne rem by (simp add: stdout_ready_def Let_def log_def)
qed

lemma seq_partial:
  assumes "buf_head (usb_read_buf s) \<noteq> buf_tail (usb_read_buf s)"
    and "unat (buf_head (usb_read_buf s)) < USB_BUFS"
    and "pollfd (usb_read_buf s) = Some p" and "p < length (fds s)"
    and "\<forall>r \<in> set rs. 0 \<le> io_ret r"
    and "uint (xfer_written (usb_read_buf s)) + sum_list (map io_ret rs)
           < uint (xfer_length (usb_read_buf s))"
  shows "stdout_ready_seq cfg rs i s =
     Running (s\<lparr>usb_read_buf := (usb_read_buf s)
                  \<lparr>xfer_written := xfer_written (usb_read_buf s)
                                      + word_of_int (sum_list (map io_ret rs))\<rparr>,
               trace := rev (writes_of (xfer_written (usb_read_buf s))
                               (xfer_length (usb_read_buf s)) (map io_ret rs)) @ trace s\<rparr>)"
  using assms
proof (induction rs arbitrary: s)
  case Nil
  then show ?case by simp
next
  case (Cons r rs)
  let ?q = "usb_read_buf s"
  let ?s1 = "log (Write (xfer_written ?q) (xfer_length ?q - xfer_written ?q) (io_ret r)) s
        \<lparr>usb_read_buf := ?q\<lparr>xfer_written := xfer_written ?q + word_of_int (io_ret r)\<rparr>\<rparr>"
  have k: "0 \<le> io_ret r" and ks: "0 \<le> sum_list (map io_ret rs)"
    using Cons.prems(5) by (auto intro!: sum_list_nonneg)
  have lt: "uint (xfer_written ?q) + io_ret r < uint (xfer_length ?q)"
    using Cons.prems(6) ks by simp
  have step: "stdout_ready cfg r i s = Running ?s1"
    using Cons.prems(1-4) k lt by (rule one_partial)
  have u: "uint (xfer_written ?q + word_of_int (io_ret r)) = uint (xfer_written ?q) + io_ret r"
    using k lt uint_cursor [of "io_ret r" "xfer_written ?q" "xfer_length ?q"] by simp
  have "stdout_ready_seq cfg rs i ?s1 =
     Running (?s1\<lparr>usb_read_buf := (usb_read_buf ?s1)
                  \<lparr>xfer_written := xfer_written (usb_read_buf ?s1)
                                      + word_of_int (sum_list (map io_ret rs))\<rparr>,
               trace := rev (writes_of (xfer_written (usb_read_buf ?s1))
                               (xfer_length (usb_read_buf ?s1)) (map io_ret rs)) @ trace ?s1\<rparr>)"
  proof (rule Cons.IH)
    show "uint (xfer_written (usb_read_buf ?s1)) + sum_list (map io_ret rs)
           < uint (xfer_length (usb_read_buf ?s1))"
      using Cons.prems(6) u by (simp add: log_def)
  qed (use Cons.prems in \<open>simp_all add: log_def\<close>)
  then show ?case
    using step by (simp add: log_def add.assoc)
qed

lemma seq_snoc:
  "stdout_ready_seq cfg (rs @ [r]) i s =
     (case stdout_ready_seq cfg rs i s of Running s' \<Rightarrow> stdout_ready cfg r i s' | x \<Rightarrow> x)"
  by (induction rs arbitrary: s) (auto split: result.splits)

lemma writes_of_snoc:
  "writes_of w len (ks @ [k]) =
     writes_of w len ks
       @ [Write (w + word_of_int (sum_list ks)) (len - (w + word_of_int (sum_list ks))) k]"
  by (induction ks arbitrary: w) (simp_all add: add.assoc)

lemma release_step:
  assumes "buf_head (usb_read_buf s) \<noteq> buf_tail (usb_read_buf s)"
    and "unat (buf_head (usb_read_buf s)) < USB_BUFS"
    and "unat (buf_tail (usb_read_buf s)) < USB_BUFS"
    and "pollfd (usb_read_buf s) = Some p" and "p < length (fds s)"
    and "h = usb_xfer (buf (usb_read_buf s) (unat (buf_head (usb_read_buf s))))"
    and "h < length (xfers s)" and "\<not> in_flight (xfers s ! h)"
    and "0 \<le> io_ret r"
    and "uint (xfer_written (usb_read_buf s)) + io_ret r = uint (xfer_length (usb_read_buf s))"
    and "submit_ret r = LIBUSB_SUCCESS"
  shows "\<exists>s'. stdout_ready cfg r i s = Running s'
           \<and> buf_head (usb_read_buf s') = (buf_head (usb_read_buf s) + 1) mod of_nat USB_BUFS
           \<and> in_flight (xfers s' ! h)
           \<and> trace s' = Submit (Some ReadQ) h (int USB_XFER_SZ)
                # Write (xfer_written (usb_read_buf s))
                    (xfer_length (usb_read_buf s) - xfer_written (usb_read_buf s)) (io_ret r)
                # trace s"
proof -
  let ?q = "usb_read_buf s"
  have le: "uint (xfer_written ?q) \<le> uint (xfer_length ?q)" using assms(9,10) by linarith
  have "uint (xfer_written ?q + word_of_int (io_ret r)) = uint (xfer_length ?q)"
    using assms(9,10) uint_cursor [of "io_ret r" "xfer_written ?q" "xfer_length ?q"] by simp
  then have eq: "xfer_written ?q + word_of_int (io_ret r) = xfer_length ?q"
    by (simp only: word_uint_eq_iff)
  have rem: "io_ret r \<le> uint (xfer_length ?q - xfer_written ?q)"
    using uint_remaining [OF le] assms(10) by simp
  have nh: "(buf_head ?q + 1) mod of_nat USB_BUFS = buf_tail ?q"
    using assms(2,3,1) by (rule word2_succ)
  show ?thesis
    using assms(1,2,4-9,11) eq rem nh
    by (simp add: stdout_ready_def Let_def log_def libusb_fill_bulk_transfer_def
          libusb_submit_transfer_def)
qed

text \<open>The state \<open>inbound_queued\<close> is the one usbcat -r 0x81 is in after its inbound transfer
  has completed with 10 bytes.\<close>

lemma inbound_queued_reachable:
  "main cfg_read_only garbage init_ok [one_ready [idle, usb_event 0 LIBUSB_TRANSFER_COMPLETED 10]] = Running inbound_queued"
  by (simp add: main_def main_init_def init_write_queue_def init_read_queue_def cfg_read_only_def garbage_def init_ok_def one_ready_def idle_def usb_event_def inbound_queued_def stack_garbage_def non_blocking_def USB_BUFS_def libusb_alloc_transfer_def malloc_def libusb_fill_bulk_transfer_def libusb_submit_transfer_def log_def LIBUSB_SUCCESS_def USB_XFER_SZ_def loop_cond_def loop_body_def poll_def usb_ready_def usb_callback_def Let_def POLLIN_def POLLOUT_def POLLERR_def POLLHUP_def POLLNVAL_def LIBUSB_ENDPOINT_DIR_MASK_def STDIN_FILENO_def STDOUT_FILENO_def upt_conv_Cons)

text \<open>
  Claim C8. The buffer at the head of the inbound queue has length \<open>xfer_length\<close> and the
  cursor \<open>xfer_written\<close>. While the writes deliver less than what is left (the counts of
  \<open>rs\<close>), each write starts at the cursor and asks for all that is left, the cursor
  advances by the count written, the head stays and no transfer is submitted. The write
  that delivers the rest (\<open>r_last\<close>) submits the transfer of the buffer again and
  advances the head. The number of partial writes is the length of \<open>rs\<close>, which is
  arbitrary.
\<close>

theorem partial_write_resumption:
  assumes "buf_head (usb_read_buf s) \<noteq> buf_tail (usb_read_buf s)"
    and "unat (buf_head (usb_read_buf s)) < USB_BUFS"
    and "unat (buf_tail (usb_read_buf s)) < USB_BUFS"
    and "pollfd (usb_read_buf s) = Some p" and "p < length (fds s)"
    and "h = usb_xfer (buf (usb_read_buf s) (unat (buf_head (usb_read_buf s))))"
    and "h < length (xfers s)" and "\<not> in_flight (xfers s ! h)"
    and "\<forall>r \<in> set rs. 0 \<le> io_ret r"
    and "0 \<le> io_ret r_last"
    and "uint (xfer_written (usb_read_buf s)) + sum_list (map io_ret rs)
           < uint (xfer_length (usb_read_buf s))"
    and "uint (xfer_written (usb_read_buf s)) + sum_list (map io_ret rs) + io_ret r_last
           = uint (xfer_length (usb_read_buf s))"
    and "submit_ret r_last = LIBUSB_SUCCESS"
  shows "\<exists>s1 s2.
      stdout_ready_seq cfg rs i s = Running s1
      \<and> buf_head (usb_read_buf s1) = buf_head (usb_read_buf s)
      \<and> xfers s1 = xfers s
      \<and> uint (xfer_written (usb_read_buf s1))
          = uint (xfer_written (usb_read_buf s)) + sum_list (map io_ret rs)
      \<and> trace s1 = rev (writes_of (xfer_written (usb_read_buf s))
                          (xfer_length (usb_read_buf s)) (map io_ret rs)) @ trace s
      \<and> stdout_ready_seq cfg (rs @ [r_last]) i s = Running s2
      \<and> buf_head (usb_read_buf s2) = (buf_head (usb_read_buf s) + 1) mod of_nat USB_BUFS
      \<and> in_flight (xfers s2 ! h)
      \<and> trace s2 = Submit (Some ReadQ) h (int USB_XFER_SZ)
           # rev (writes_of (xfer_written (usb_read_buf s))
                    (xfer_length (usb_read_buf s)) (map io_ret (rs @ [r_last]))) @ trace s"
proof -
  let ?q = "usb_read_buf s"
  let ?sum = "sum_list (map io_ret rs)"
  let ?s1 = "s\<lparr>usb_read_buf := ?q\<lparr>xfer_written := xfer_written ?q + word_of_int ?sum\<rparr>,
               trace := rev (writes_of (xfer_written ?q) (xfer_length ?q) (map io_ret rs)) @ trace s\<rparr>"
  have s1: "stdout_ready_seq cfg rs i s = Running ?s1"
    using assms(1,2,4,5,9,11) by (rule seq_partial)
  have nn: "0 \<le> ?sum" using assms(9) by (auto intro!: sum_list_nonneg)
  have u: "uint (xfer_written ?q + word_of_int ?sum) = uint (xfer_written ?q) + ?sum"
    using nn assms(11) uint_cursor [of ?sum "xfer_written ?q" "xfer_length ?q"] by simp
  have "\<exists>s'. stdout_ready cfg r_last i ?s1 = Running s'
           \<and> buf_head (usb_read_buf s') = (buf_head (usb_read_buf ?s1) + 1) mod of_nat USB_BUFS
           \<and> in_flight (xfers s' ! h)
           \<and> trace s' = Submit (Some ReadQ) h (int USB_XFER_SZ)
                # Write (xfer_written (usb_read_buf ?s1))
                    (xfer_length (usb_read_buf ?s1) - xfer_written (usb_read_buf ?s1)) (io_ret r_last)
                # trace ?s1"
  proof (rule release_step)
    show "uint (xfer_written (usb_read_buf ?s1)) + io_ret r_last
            = uint (xfer_length (usb_read_buf ?s1))"
      using u assms(12) by simp
  qed (use assms in simp_all)
  then obtain s2 where s2: "stdout_ready cfg r_last i ?s1 = Running s2"
      "buf_head (usb_read_buf s2) = (buf_head ?q + 1) mod of_nat USB_BUFS"
      "in_flight (xfers s2 ! h)"
      "trace s2 = Submit (Some ReadQ) h (int USB_XFER_SZ)
           # Write (xfer_written ?q + word_of_int ?sum)
               (xfer_length ?q - (xfer_written ?q + word_of_int ?sum)) (io_ret r_last)
           # rev (writes_of (xfer_written ?q) (xfer_length ?q) (map io_ret rs)) @ trace s"
    by auto
  have seq2: "stdout_ready_seq cfg (rs @ [r_last]) i s = Running s2"
    using s1 s2(1) by (simp add: seq_snoc)
  have tr2: "trace s2 = Submit (Some ReadQ) h (int USB_XFER_SZ)
           # rev (writes_of (xfer_written ?q) (xfer_length ?q) (map io_ret (rs @ [r_last]))) @ trace s"
    using s2(4) by (simp add: writes_of_snoc)
  show ?thesis
    using s1 u seq2 s2(2,3) tr2 by simp
qed

theorem partial_write_resumption_witness:
  "\<exists>s1 s2.
      stdout_ready_seq cfg_read_only [io_event POLLOUT 4 0, io_event POLLOUT 3 0] 0 inbound_queued
        = Running s1
      \<and> buf_head (usb_read_buf s1) = 0
      \<and> xfers s1 = xfers inbound_queued
      \<and> uint (xfer_written (usb_read_buf s1)) = 7
      \<and> trace s1 = [Write 4 6 3, Write 0 10 4] @ trace inbound_queued
      \<and> stdout_ready_seq cfg_read_only
           [io_event POLLOUT 4 0, io_event POLLOUT 3 0, io_event POLLOUT 3 0] 0 inbound_queued
        = Running s2
      \<and> buf_head (usb_read_buf s2) = 1
      \<and> in_flight (xfers s2 ! 0)
      \<and> trace s2 = [Submit (Some ReadQ) 0 512, Write 7 3 3, Write 4 6 3, Write 0 10 4]
           @ trace inbound_queued"
  using partial_write_resumption [of inbound_queued 0 0
      "[io_event POLLOUT 4 0, io_event POLLOUT 3 0]" "io_event POLLOUT 3 0" cfg_read_only 0]
  by (simp add: inbound_queued_def io_event_def idle_def USB_BUFS_def USB_XFER_SZ_def
        LIBUSB_SUCCESS_def del: stdout_ready_seq.simps)

section \<open>The invariant is kept\<close>

subsection \<open>Event masks\<close>

lemma or_and_same: "(e OR m) AND m = (m :: 'a::len word)"
  by (simp add: word_ao_absorbs)

lemma mask_set:
  "(e OR POLLIN) AND POLLIN \<noteq> 0" "(e OR POLLOUT) AND POLLOUT \<noteq> 0"
  by (simp_all add: word_ao_absorbs POLLIN_def POLLOUT_def)

lemma mask_clear: "(e AND NOT m) AND m = (0 :: 'a::len word)"
  by (simp add: and.assoc)

lemma and_split:
  fixes r m :: "'a::len word"
  assumes "r AND NOT m = 0"
  shows "r AND m = r"
proof -
  have "r = (r AND m) OR (r AND NOT m)"
    by (simp add: bit.conj_disj_distrib [symmetric])
  then show ?thesis using assms by simp
qed

lemma rev_ok_and:
  assumes "rev_ok f" and "(POLLERR OR POLLHUP OR POLLNVAL) AND p = 0"
  shows "revents f AND p = revents f AND (events f AND p)"
proof -
  let ?m = "events f OR POLLERR OR POLLHUP OR POLLNVAL"
  have r: "revents f AND ?m = revents f"
    using assms(1) by (intro and_split) (simp add: rev_ok_def)
  have "?m AND p = (events f AND p) OR ((POLLERR OR POLLHUP OR POLLNVAL) AND p)"
    by (simp add: bit.conj_disj_distrib2 or.assoc)
  then have m: "?m AND p = events f AND p" using assms(2) by simp
  have "revents f AND p = (revents f AND ?m) AND p" using r by simp
  also have "\<dots> = revents f AND (?m AND p)" by (simp only: and.assoc)
  finally show ?thesis using m by simp
qed

lemma rev_ok_in: "rev_ok f \<Longrightarrow> revents f AND POLLIN \<noteq> 0 \<Longrightarrow> events f AND POLLIN \<noteq> 0"
  using rev_ok_and [of f POLLIN]
  by (auto simp: POLLIN_def POLLERR_def POLLHUP_def POLLNVAL_def)

lemma rev_ok_out: "rev_ok f \<Longrightarrow> events f AND POLLOUT = 0 \<Longrightarrow> revents f AND POLLOUT = 0"
  using rev_ok_and [of f POLLOUT]
  by (auto simp: POLLOUT_def POLLERR_def POLLHUP_def POLLNVAL_def)

lemma map_fd_update [simp]: "map fd (xs[i := (xs ! i)\<lparr>events := e\<rparr>]) = map fd xs"
  by (induction xs arbitrary: i) (simp_all split: nat.split)

lemma poll_bits_neq0 [simp]: "POLLIN \<noteq> 0" "POLLOUT \<noteq> 0"
  by (simp_all add: POLLIN_def POLLOUT_def)

subsection \<open>Completions\<close>

lemma succ_neq:
  fixes t :: "32 word"
  assumes "unat t < USB_BUFS"
  shows "(t + 1) mod of_nat USB_BUFS \<noteq> t" "unat ((t + 1) mod of_nat USB_BUFS) < USB_BUFS"
  using word_lt2 [OF assms] by (auto simp: USB_BUFS_def)

lemma inv_lengths:
  assumes "loop_inv cfg s"
  shows "0 \<le> write_ep cfg \<Longrightarrow> 0 < length (fds s) \<and> 0 < length (xfers s)"
    and "0 \<le> read_ep cfg \<Longrightarrow> r_idx cfg < length (fds s) \<and> r_idx cfg < length (xfers s)"
proof -
  have m: "length (fds s) = length (map fd (fds s))" by simp
  show "0 \<le> write_ep cfg \<Longrightarrow> 0 < length (fds s) \<and> 0 < length (xfers s)"
    using assms unfolding m by (simp add: loop_inv_def shape_ok_def)
  show "0 \<le> read_ep cfg \<Longrightarrow> r_idx cfg < length (fds s) \<and> r_idx cfg < length (xfers s)"
    using assms unfolding m by (simp add: loop_inv_def shape_ok_def r_idx_def)
qed

lemma handle_cases:
  assumes "loop_inv cfg s" "h < length (xfers s)"
  shows "(0 \<le> write_ep cfg \<and> h = 0) \<or> (0 \<le> read_ep cfg \<and> h = r_idx cfg)"
  using assms by (auto simp: loop_inv_def shape_ok_def r_idx_def split: if_splits)

lemma deliver_write:
  assumes "wf_config cfg" "loop_inv cfg s" "0 \<le> write_ep cfg" "in_flight (xfers s ! 0)"
  shows "res_ok cfg (usb_callback 0 rc
           (log (Completion (user_data (xfers s ! 0)) 0 st)
              (s\<lparr>xfers := (xfers s)[0 := (xfers s ! 0)
                    \<lparr>status := st, actual_length := n, in_flight := False\<rparr>]\<rparr>)))"
proof -
  let ?q = "usb_write_buf s"
  have len: "0 < length (fds s)" "0 < length (xfers s)"
    using inv_lengths(1) [OF assms(2,3)] by simp_all
  have w: "write_ok cfg s" and r: "read_ok cfg s" and t: "trace_ok cfg s" and sh: "shape_ok cfg s"
    using assms(2) by (simp_all add: loop_inv_def)
  have f: "user_data (xfers s ! 0) = Some WriteQ"
      "endpoint (xfers s ! 0) AND LIBUSB_ENDPOINT_DIR_MASK = 0"
      "buf_head ?q = buf_tail ?q" "\<not> error ?q" "idx_ok ?q" "pollfd ?q = Some 0"
      "events (fds s ! 0) AND POLLIN = 0"
    using w assms(3,4) by (simp_all add: write_ok_def)
  have nt: "(buf_tail ?q + 1) mod of_nat USB_BUFS \<noteq> buf_tail ?q"
      "unat ((buf_tail ?q + 1) mod of_nat USB_BUFS) < USB_BUFS" "unat (buf_tail ?q) < USB_BUFS"
    using f(5) succ_neq [of "buf_tail ?q"] by (simp_all add: idx_ok_def)
  have nf: "\<not> list_ex (is_failure WriteQ) (trace s)"
    using t f(4) by (auto simp: trace_ok_def)
  have pend: "out_pending (trace s)"
    using t f(3,4) assms(3) by (simp add: trace_ok_def)
  show ?thesis
  proof (cases st)
    case LIBUSB_TRANSFER_COMPLETED
    then show ?thesis
      using len f nt sh w r t assms(3)
      apply (simp add: usb_callback_def log_def Let_def res_ok_def loop_inv_def)
      apply (intro conjI impI)
      apply (auto simp: shape_ok_def write_ok_def read_ok_def trace_ok_def idx_ok_def
           mask_set r_idx_def)
      done
  next
    case LIBUSB_TRANSFER_TIMED_OUT
    then show ?thesis
      using len f nt sh w r t nf pend assms(3)
      apply (simp add: usb_callback_def log_def Let_def res_ok_def loop_inv_def
           libusb_submit_transfer_def)
      apply (intro conjI impI)
      apply (auto simp: shape_ok_def write_ok_def read_ok_def trace_ok_def idx_ok_def
           r_idx_def)
      done
  next
    case LIBUSB_TRANSFER_ERROR
    then show ?thesis
      using len f nt sh w r t nf pend assms(3)
      apply (simp add: usb_callback_def log_def Let_def res_ok_def loop_inv_def)
      apply (auto simp: shape_ok_def write_ok_def read_ok_def trace_ok_def idx_ok_def
           r_idx_def)
      done
  qed (insert len f nt sh w r t nf pend assms(3),
       auto simp: usb_callback_def log_def Let_def res_ok_def loop_inv_def
         shape_ok_def write_ok_def read_ok_def trace_ok_def idx_ok_def r_idx_def)
qed


lemma deliver_read:
  assumes "wf_config cfg" "loop_inv cfg s" "0 \<le> read_ep cfg" "in_flight (xfers s ! r_idx cfg)"
  shows "res_ok cfg (usb_callback (r_idx cfg) rc
           (log (Completion (user_data (xfers s ! r_idx cfg)) (r_idx cfg) st)
              (s\<lparr>xfers := (xfers s)[r_idx cfg := (xfers s ! r_idx cfg)
                    \<lparr>status := st, actual_length := n, in_flight := False\<rparr>]\<rparr>)))"
proof -
  let ?q = "usb_read_buf s"
  have len: "r_idx cfg < length (fds s)" "r_idx cfg < length (xfers s)"
    using inv_lengths(2) [OF assms(2,3)] by simp_all
  have w: "write_ok cfg s" and r: "read_ok cfg s" and t: "trace_ok cfg s" and sh: "shape_ok cfg s"
    using assms(2) by (simp_all add: loop_inv_def)
  have f: "user_data (xfers s ! r_idx cfg) = Some ReadQ"
      "endpoint (xfers s ! r_idx cfg) AND LIBUSB_ENDPOINT_DIR_MASK \<noteq> 0"
      "buf_head ?q = buf_tail ?q" "\<not> error ?q" "idx_ok ?q" "pollfd ?q = Some (r_idx cfg)"
      "events (fds s ! r_idx cfg) AND POLLOUT = 0" "\<not> shutdown ?q"
    using r assms(3,4) by (simp_all add: read_ok_def)
  have nt: "(buf_tail ?q + 1) mod of_nat USB_BUFS \<noteq> buf_tail ?q"
      "unat ((buf_tail ?q + 1) mod of_nat USB_BUFS) < USB_BUFS" "unat (buf_tail ?q) < USB_BUFS"
    using f(5) succ_neq [of "buf_tail ?q"] by (simp_all add: idx_ok_def)
  have nf: "\<not> list_ex (is_failure ReadQ) (trace s)"
    using t f(4) by (auto simp: trace_ok_def)
  show ?thesis
  proof (cases st)
    case LIBUSB_TRANSFER_COMPLETED
    then show ?thesis
      using len f nt sh w r t assms(3)
      apply (simp add: usb_callback_def log_def Let_def res_ok_def loop_inv_def)
      apply (auto simp: shape_ok_def write_ok_def read_ok_def trace_ok_def idx_ok_def
           r_idx_def split: if_splits)
      done
  next
    case LIBUSB_TRANSFER_TIMED_OUT
    then show ?thesis
      using len f nt sh w r t nf assms(3)
      apply (simp add: usb_callback_def log_def Let_def res_ok_def loop_inv_def
           libusb_submit_transfer_def)
      apply (auto simp: shape_ok_def write_ok_def read_ok_def trace_ok_def idx_ok_def
           r_idx_def split: if_splits)
      done
  qed (insert len f nt sh w r t nf assms(3),
       auto simp: usb_callback_def log_def Let_def res_ok_def loop_inv_def
         shape_ok_def write_ok_def read_ok_def trace_ok_def idx_ok_def r_idx_def
         split: if_splits)
qed

lemma inv_log_stderr: "loop_inv cfg s \<Longrightarrow> loop_inv cfg (log (Stderr m) s)"
  by (simp add: loop_inv_def shape_ok_def write_ok_def read_ok_def trace_ok_def log_def)

lemma res_ok_bind:
  assumes "res_ok cfg r" "\<And>s'. r = Running s' \<Longrightarrow> loop_inv cfg s' \<Longrightarrow> res_ok cfg (k s')"
  shows "res_ok cfg (case r of Running s' \<Rightarrow> k s' | x \<Rightarrow> x)"
  using assms by (cases r) (simp_all add: res_ok_def)

lemma handle_events_ok:
  assumes "wf_config cfg" "loop_inv cfg s"
  shows "res_ok cfg (libusb_handle_events_timeout cs s)"
  using assms(2)
proof (induction cs arbitrary: s)
  case Nil
  then show ?case by (simp add: res_ok_def)
next
  case (Cons c cs)
  show ?case
  proof (cases "c_xfer c < length (xfers s) \<and> in_flight (xfers s ! c_xfer c)
         \<and> 0 \<le> c_actual_length c \<and> c_actual_length c \<le> length_x (xfers s ! c_xfer c)")
    case False
    then show ?thesis by (auto simp: res_ok_def)
  next
    case True
    let ?h = "c_xfer c"
    let ?r = "usb_callback ?h (c_resubmit c)
                   (log (Completion (user_data (xfers s ! ?h)) ?h (c_status c))
                      (s\<lparr>xfers := (xfers s)[?h := (xfers s ! ?h)
                            \<lparr>status := c_status c, actual_length := c_actual_length c,
                             in_flight := False\<rparr>]\<rparr>))"
    have "res_ok cfg ?r"
      using handle_cases [OF Cons.prems, of ?h] True
        deliver_write [OF assms(1) Cons.prems] deliver_read [OF assms(1) Cons.prems]
      by auto
    then have "res_ok cfg (case ?r of Running s' \<Rightarrow> libusb_handle_events_timeout cs s' | x \<Rightarrow> x)"
      by (rule res_ok_bind) (rule Cons.IH)
    then show ?thesis using True by simp
  qed
qed

lemma usb_ready_ok:
  assumes "wf_config cfg" "loop_inv cfg s"
  shows "res_ok cfg (usb_ready r s)"
  unfolding usb_ready_def
  by (rule res_ok_bind [OF handle_events_ok [OF assms]])
     (simp add: res_ok_def inv_log_stderr)

subsection \<open>The blocks of the standard streams\<close>

lemma stdin_ready_ok:
  assumes "wf_config cfg" "loop_inv cfg s" "0 \<le> write_ep cfg" "rev_ok (fds s ! 0)"
    and "shutdown (usb_write_buf s) \<longrightarrow> buf_head (usb_write_buf s) = buf_tail (usb_write_buf s)"
  shows "res_ok cfg (stdin_ready cfg r 0 s)"
proof (cases "revents (fds s ! 0) AND POLLIN \<noteq> 0")
  case False
  then show ?thesis
    using assms(2,3)
    by (auto simp: stdin_ready_def res_ok_def log_def loop_inv_def shape_ok_def write_ok_def
          read_ok_def trace_ok_def idx_ok_def)
next
  case True
  let ?q = "usb_write_buf s"
  have len: "0 < length (fds s)" "0 < length (xfers s)"
    using inv_lengths(1) [OF assms(2,3)] by simp_all
  have w: "write_ok cfg s" and rd: "read_ok cfg s" and t: "trace_ok cfg s" and sh: "shape_ok cfg s"
    using assms(2) by (simp_all add: loop_inv_def)
  have ev: "events (fds s ! 0) AND POLLIN \<noteq> 0"
    using assms(4) True by (rule rev_ok_in)
  then have ne: "buf_head ?q \<noteq> buf_tail ?q"
    using w assms(3) by (auto simp: write_ok_def)
  have f: "\<not> error ?q" "usb_xfer (buf ?q (unat (buf_head ?q))) = 0" "\<not> in_flight (xfers s ! 0)"
      "idx_ok ?q" "pollfd ?q = Some 0" "\<not> shutdown ?q"
    using w ne assms(3,5) by (auto simp: write_ok_def)
  have nh: "(buf_head ?q + 1) mod of_nat USB_BUFS = buf_tail ?q" "unat (buf_head ?q) < USB_BUFS"
    using f(4) ne word2_succ [of "buf_head ?q" "buf_tail ?q"] by (simp_all add: idx_ok_def)
  have nf: "\<not> list_ex (is_failure WriteQ) (trace s)" "\<not> list_ex is_eof (trace s)"
      "\<not> out_pending (trace s)"
    using t f(1,6) ne assms(3) by (auto simp: trace_ok_def)
  have ep: "(word_of_int (write_ep cfg) :: 8 word) AND LIBUSB_ENDPOINT_DIR_MASK = 0"
    using assms(1,3) by (simp add: wf_config_def)
  consider (bad) "\<not> (- 1 \<le> io_ret r \<and> io_ret r \<le> int (USB_XFER_SZ div 2))"
    | (pos) "- 1 \<le> io_ret r \<and> io_ret r \<le> int (USB_XFER_SZ div 2)" "0 < io_ret r"
    | (zero) "io_ret r = 0"
    | (neg) "io_ret r = - 1"
    by linarith
  then show ?thesis
  proof cases
    case bad
    then show ?thesis using True ne nh by (simp add: stdin_ready_def res_ok_def)
  next
    case pos
    then show ?thesis
      using True ne nh len f nf ep sh w rd t assms(3)
      apply (simp add: stdin_ready_def res_ok_def Let_def log_def libusb_fill_bulk_transfer_def
            libusb_submit_transfer_def loop_inv_def)
      apply (auto simp: shape_ok_def write_ok_def read_ok_def trace_ok_def idx_ok_def
           r_idx_def mask_clear split: if_splits)
      done
  next
    case zero
    then show ?thesis
      using True ne nh len f nf sh w rd t assms(3)
      apply (simp add: stdin_ready_def res_ok_def Let_def log_def loop_inv_def USB_XFER_SZ_def)
      apply (auto simp: shape_ok_def write_ok_def read_ok_def trace_ok_def idx_ok_def
           r_idx_def split: if_splits)
      done
  next
    case neg
    then show ?thesis
      using True ne nh len f nf sh w rd t assms(3)
      apply (simp add: stdin_ready_def res_ok_def Let_def log_def loop_inv_def USB_XFER_SZ_def)
      apply (auto simp: shape_ok_def write_ok_def read_ok_def trace_ok_def idx_ok_def
           r_idx_def split: if_splits)
      done
  qed
qed

lemma stdout_ready_ok:
  assumes "wf_config cfg" "loop_inv cfg s" "0 \<le> read_ep cfg" "rev_ok (fds s ! r_idx cfg)"
  shows "res_ok cfg (stdout_ready cfg r (r_idx cfg) s)"
proof (cases "buf_head (usb_read_buf s) = buf_tail (usb_read_buf s)")
  case True
  then have "events (fds s ! r_idx cfg) AND POLLOUT = 0"
    using assms(2,3) by (simp add: loop_inv_def read_ok_def)
  with assms(4) have "revents (fds s ! r_idx cfg) AND POLLOUT = 0"
    by (rule rev_ok_out)
  then show ?thesis
    using True assms(2) by (simp add: stdout_ready_def res_ok_def)
next
  case ne: False
  let ?q = "usb_read_buf s"
  have len: "r_idx cfg < length (fds s)" "r_idx cfg < length (xfers s)"
    using inv_lengths(2) [OF assms(2,3)] by simp_all
  have w: "write_ok cfg s" and rd: "read_ok cfg s" and t: "trace_ok cfg s" and sh: "shape_ok cfg s"
    using assms(2) by (simp_all add: loop_inv_def)
  have f: "\<not> error ?q" "usb_xfer (buf ?q (unat (buf_head ?q))) = r_idx cfg"
      "\<not> in_flight (xfers s ! r_idx cfg)" "idx_ok ?q" "pollfd ?q = Some (r_idx cfg)"
      "\<not> shutdown ?q" "events (fds s ! r_idx cfg) AND POLLOUT \<noteq> 0"
    using rd ne assms(3) by (auto simp: read_ok_def)
  have nh: "(buf_head ?q + 1) mod of_nat USB_BUFS = buf_tail ?q" "unat (buf_head ?q) < USB_BUFS"
    using f(4) ne word2_succ [of "buf_head ?q" "buf_tail ?q"] by (simp_all add: idx_ok_def)
  have nf: "\<not> list_ex (is_failure ReadQ) (trace s)"
    using t f(1) by (auto simp: trace_ok_def)
  have ep: "(word_of_int (read_ep cfg) :: 8 word) AND LIBUSB_ENDPOINT_DIR_MASK \<noteq> 0"
    using assms(1,3) by (simp add: wf_config_def)
  consider (bad) "\<not> (- 1 \<le> io_ret r \<and> io_ret r \<le> uint (xfer_length ?q - xfer_written ?q))"
    | (part) "- 1 \<le> io_ret r \<and> io_ret r \<le> uint (xfer_length ?q - xfer_written ?q)" "0 \<le> io_ret r"
        "xfer_written ?q + word_of_int (io_ret r) \<noteq> xfer_length ?q"
    | (full) "- 1 \<le> io_ret r \<and> io_ret r \<le> uint (xfer_length ?q - xfer_written ?q)" "0 \<le> io_ret r"
        "xfer_written ?q + word_of_int (io_ret r) = xfer_length ?q"
    | (neg) "- 1 \<le> io_ret r \<and> io_ret r \<le> uint (xfer_length ?q - xfer_written ?q)" "io_ret r < 0"
    by linarith
  then show ?thesis
  proof cases
    case bad
    then show ?thesis using ne nh len f by (simp add: stdout_ready_def res_ok_def)
  next
    case part
    then show ?thesis
      using ne nh len f nf sh w rd t assms(3)
      apply (simp add: stdout_ready_def res_ok_def Let_def log_def loop_inv_def)
      apply (auto simp: shape_ok_def write_ok_def read_ok_def trace_ok_def idx_ok_def
           r_idx_def split: if_splits)
      done
  next
    case full
    then show ?thesis
      using ne nh len f nf ep sh w rd t assms(3)
      apply (simp add: stdout_ready_def res_ok_def Let_def log_def libusb_fill_bulk_transfer_def
            libusb_submit_transfer_def loop_inv_def)
      apply (auto simp: shape_ok_def write_ok_def read_ok_def trace_ok_def idx_ok_def
           r_idx_def mask_clear split: if_splits)
      done
  next
    case neg
    then show ?thesis
      using ne nh len f nf sh w rd t assms(3)
      apply (simp add: stdout_ready_def res_ok_def Let_def log_def loop_inv_def)
      apply (auto simp: shape_ok_def write_ok_def read_ok_def trace_ok_def idx_ok_def
           r_idx_def split: if_splits)
      done
  qed
qed

subsection \<open>One iteration\<close>

lemma map2_revents:
  assumes "length rs = length fs"
  shows "map fd (map2 (\<lambda>f r. f\<lparr>revents := g r\<rparr>) fs rs) = map fd fs"
    and "i < length fs \<Longrightarrow> events (map2 (\<lambda>f r. f\<lparr>revents := g r\<rparr>) fs rs ! i) = events (fs ! i)"
    and "i < length fs \<Longrightarrow> revents (map2 (\<lambda>f r. f\<lparr>revents := g r\<rparr>) fs rs ! i) = g (rs ! i)"
  using assms by (simp_all add: list_eq_iff_nth_eq)

lemma poll_ok:
  assumes "poll p s = Some s1" "loop_inv cfg s"
  shows "loop_inv cfg s1"
    and "usb_write_buf s1 = usb_write_buf s"
    and "0 < poll_ret p \<Longrightarrow> length (per_fd p) = length (fds s1)"
    and "0 < poll_ret p \<Longrightarrow> i < length (fds s1) \<Longrightarrow> rev_ok (fds s1 ! i)"
proof -
  show "usb_write_buf s1 = usb_write_buf s"
    using assms(1) by (auto simp: poll_def split: if_splits)
  show "loop_inv cfg s1"
  proof (cases "0 < poll_ret p")
    case False
    then show ?thesis using assms by (simp add: poll_def)
  next
    case True
    then have l: "length (per_fd p) = length (fds s)"
      and s1: "s1 = s\<lparr>fds := map2 (\<lambda>f r. f\<lparr>revents := r_revents r\<rparr>) (fds s) (per_fd p)\<rparr>"
      using assms(1) by (auto simp: poll_def split: if_splits dest: list_all2_lengthD)
    have len: "0 \<le> write_ep cfg \<Longrightarrow> 0 < length (fds s)"
        "0 \<le> read_ep cfg \<Longrightarrow> r_idx cfg < length (fds s)"
      using inv_lengths [OF assms(2)] by simp_all
    have eqs: "usb_write_buf s1 = usb_write_buf s" "usb_read_buf s1 = usb_read_buf s"
        "xfers s1 = xfers s" "trace s1 = trace s"
      by (simp_all add: s1)
    have fdm: "map fd (fds s1) = map fd (fds s)"
      unfolding s1 using map2_revents(1) [OF l] by simp
    have ev: "i < length (fds s) \<Longrightarrow> events (fds s1 ! i) = events (fds s ! i)" for i
      unfolding s1 using map2_revents(2) [OF l] by simp
    have "shape_ok cfg s1 = shape_ok cfg s"
      by (simp only: shape_ok_def eqs fdm)
    moreover have "write_ok cfg s1 = write_ok cfg s"
    proof (cases "0 \<le> write_ep cfg")
      case True
      then show ?thesis using ev [of 0] len(1) by (simp add: write_ok_def eqs)
    next
      case False
      then show ?thesis by (simp add: write_ok_def eqs)
    qed
    moreover have "read_ok cfg s1 = read_ok cfg s"
    proof (cases "0 \<le> read_ep cfg")
      case True
      then show ?thesis using ev [of "r_idx cfg"] len(2) by (simp add: read_ok_def eqs)
    next
      case False
      then show ?thesis by (simp add: read_ok_def eqs)
    qed
    moreover have "trace_ok cfg s1 = trace_ok cfg s"
      by (simp only: trace_ok_def eqs)
    ultimately show ?thesis using assms(2) by (simp add: loop_inv_def)
  qed
  show "length (per_fd p) = length (fds s1)" if "0 < poll_ret p"
    using that assms(1) by (auto simp: poll_def split: if_splits dest: list_all2_lengthD)
  show "rev_ok (fds s1 ! i)" if "0 < poll_ret p" "i < length (fds s1)"
  proof -
    have a: "list_all2 (\<lambda>f r. r_revents r AND NOT (events f OR POLLERR OR POLLHUP OR POLLNVAL) = 0)
                 (fds s) (per_fd p)"
      and s1: "s1 = s\<lparr>fds := map2 (\<lambda>f r. f\<lparr>revents := r_revents r\<rparr>) (fds s) (per_fd p)\<rparr>"
      using that(1) assms(1) by (auto simp: poll_def split: if_splits)
    have l: "length (per_fd p) = length (fds s)" using a by (auto dest: list_all2_lengthD)
    have i: "i < length (fds s)" using that(2) l by (simp add: s1)
    have "r_revents (per_fd p ! i) AND NOT (events (fds s ! i) OR POLLERR OR POLLHUP OR POLLNVAL) = 0"
      using a i by (rule list_all2_nthD)
    then show ?thesis
      using i l by (simp add: s1 rev_ok_def)
  qed
qed

lemma fd_at:
  assumes "wf_config cfg" "loop_inv cfg s" "i < length (fds s)"
  shows "fd (fds s ! i) = STDIN_FILENO \<longleftrightarrow> 0 \<le> write_ep cfg \<and> i = 0"
    and "fd (fds s ! i) = STDOUT_FILENO \<longleftrightarrow> 0 \<le> read_ep cfg \<and> i = r_idx cfg"
proof -
  have "\<forall>x \<in> set (usb_fds cfg). fst x \<noteq> STDIN_FILENO \<and> fst x \<noteq> STDOUT_FILENO"
    using assms(1) by (auto simp: wf_config_def list_all_iff)
  then have u: "\<And>j. j < length (usb_fds cfg) \<Longrightarrow>
      fst (usb_fds cfg ! j) \<noteq> STDIN_FILENO \<and> fst (usb_fds cfg ! j) \<noteq> STDOUT_FILENO"
    by simp
  have m: "map fd (fds s) =
        (if 0 \<le> write_ep cfg then [STDIN_FILENO] else [])
        @ (if 0 \<le> read_ep cfg then [STDOUT_FILENO] else [])
        @ map fst (usb_fds cfg)"
    using assms(2) by (simp add: loop_inv_def shape_ok_def)
  have l: "length (fds s) = (if 0 \<le> write_ep cfg then 1 else 0)
      + (if 0 \<le> read_ep cfg then 1 else 0) + length (usb_fds cfg)"
    using arg_cong [OF m, of length] by (simp split: if_splits)
  have f: "fd (fds s ! i) = map fd (fds s) ! i" using assms(3) by simp
  show "fd (fds s ! i) = STDIN_FILENO \<longleftrightarrow> 0 \<le> write_ep cfg \<and> i = 0"
    unfolding f m using assms(3) u l
    by (auto simp: nth_append nth_Cons STDIN_FILENO_def STDOUT_FILENO_def split: nat.splits if_splits)
  show "fd (fds s ! i) = STDOUT_FILENO \<longleftrightarrow> 0 \<le> read_ep cfg \<and> i = r_idx cfg"
    unfolding f m using assms(3) u l
    by (auto simp: nth_append nth_Cons r_idx_def STDIN_FILENO_def STDOUT_FILENO_def
          split: nat.splits if_splits)
qed

lemma stdin_ready_frame:
  assumes "stdin_ready cfg r i s = Running s'"
  shows "length (fds s') = length (fds s)" and "j \<noteq> i \<Longrightarrow> fds s' ! j = fds s ! j"
  using assms
  by (auto simp: stdin_ready_def Let_def log_def libusb_fill_bulk_transfer_def
        libusb_submit_transfer_def split: if_splits)

lemma stdout_ready_frame:
  assumes "stdout_ready cfg r i s = Running s'"
  shows "length (fds s') = length (fds s)" and "j \<noteq> i \<Longrightarrow> fds s' ! j = fds s ! j"
  using assms
  by (auto simp: stdout_ready_def Let_def log_def libusb_fill_bulk_transfer_def
        libusb_submit_transfer_def split: if_splits option.splits)

lemma scan_ok:
  assumes "wf_config cfg"
  shows "loop_inv cfg s \<Longrightarrow> map fst rest = [k ..< k + length rest]
    \<Longrightarrow> k + length rest \<le> length (fds s)
    \<Longrightarrow> (\<forall>i. k \<le> i \<and> i < length (fds s) \<longrightarrow> rev_ok (fds s ! i))
    \<Longrightarrow> (k = 0 \<longrightarrow> shutdown (usb_write_buf s) \<longrightarrow>
           buf_head (usb_write_buf s) = buf_tail (usb_write_buf s))
    \<Longrightarrow> res_ok cfg (scan cfg rest ret s)"
proof (induction rest arbitrary: k s ret)
  case Nil
  then show ?case by (simp add: res_ok_def)
next
  case (Cons a rest)
  obtain i r where a: "a = (i, r)" by (cases a)
  have "[k ..< k + length (a # rest)] = k # [Suc k ..< Suc k + length rest]"
    using upt_rec [of k "k + Suc (length rest)"] by simp
  then have ik: "i = k" and rest: "map fst rest = [Suc k ..< Suc k + length rest]"
    using Cons.prems(2) a by simp_all
  have kl: "k < length (fds s)" and sl: "Suc k + length rest \<le> length (fds s)"
    using Cons.prems(3) by simp_all
  have rk: "rev_ok (fds s ! k)" using Cons.prems(4) kl by simp
  have next_ok: "res_ok cfg (scan cfg rest ret' s')"
    if "loop_inv cfg s'" "length (fds s') = length (fds s)"
       "\<And>j. j \<noteq> k \<Longrightarrow> fds s' ! j = fds s ! j" for s' ret'
  proof (rule Cons.IH [OF that(1) rest])
    show "Suc k + length rest \<le> length (fds s')" using sl that(2) by simp
    show "\<forall>i. Suc k \<le> i \<and> i < length (fds s') \<longrightarrow> rev_ok (fds s' ! i)"
      using Cons.prems(4) that(2,3) by auto
    show "Suc k = 0 \<longrightarrow> shutdown (usb_write_buf s') \<longrightarrow>
           buf_head (usb_write_buf s') = buf_tail (usb_write_buf s')" by simp
  qed
  note fd = fd_at [OF assms Cons.prems(1) kl]
  consider (stop) "ret = 0"
    | (skip) "ret \<noteq> 0" "events (fds s ! k) AND revents (fds s ! k) = 0"
    | (stdin) "ret \<noteq> 0" "events (fds s ! k) AND revents (fds s ! k) \<noteq> 0"
        "fd (fds s ! k) = STDIN_FILENO"
    | (stdout) "ret \<noteq> 0" "events (fds s ! k) AND revents (fds s ! k) \<noteq> 0"
        "fd (fds s ! k) \<noteq> STDIN_FILENO" "fd (fds s ! k) = STDOUT_FILENO"
    | (usb) "ret \<noteq> 0" "events (fds s ! k) AND revents (fds s ! k) \<noteq> 0"
        "fd (fds s ! k) \<noteq> STDIN_FILENO" "fd (fds s ! k) \<noteq> STDOUT_FILENO"
    by blast
  then show ?case
  proof cases
    case stop
    then show ?thesis using Cons.prems(1) by (simp add: a res_ok_def)
  next
    case skip
    have "res_ok cfg (scan cfg rest ret s)"
      by (rule next_ok) (simp_all add: Cons.prems(1))
    then show ?thesis using skip by (simp add: a ik)
  next
    case stdin
    then have w: "0 \<le> write_ep cfg" and k0: "k = 0" using fd(1) by simp_all
    have go: "shutdown (usb_write_buf s) \<longrightarrow>
           buf_head (usb_write_buf s) = buf_tail (usb_write_buf s)"
      using Cons.prems(5) k0 by simp
    have "res_ok cfg (stdin_ready cfg r 0 s)"
      using assms Cons.prems(1) w rk go unfolding k0 by (rule stdin_ready_ok)
    then have "res_ok cfg (case stdin_ready cfg r 0 s of
        Running s' \<Rightarrow> scan cfg rest (ret - 1) s' | x \<Rightarrow> x)"
    proof (rule res_ok_bind)
      fix s' assume "stdin_ready cfg r 0 s = Running s'" "loop_inv cfg s'"
      then show "res_ok cfg (scan cfg rest (ret - 1) s')"
        using stdin_ready_frame [of cfg r 0 s s'] k0 by (intro next_ok) simp_all
    qed
    then show ?thesis using stdin k0 by (simp add: a ik)
  next
    case stdout
    then have rd: "0 \<le> read_ep cfg" and kr: "k = r_idx cfg" using fd(2) by simp_all
    have "res_ok cfg (stdout_ready cfg r (r_idx cfg) s)"
      using assms Cons.prems(1) rd rk unfolding kr by (rule stdout_ready_ok)
    then have "res_ok cfg (case stdout_ready cfg r (r_idx cfg) s of
        Running s' \<Rightarrow> scan cfg rest ret s' | x \<Rightarrow> x)"
    proof (rule res_ok_bind)
      fix s' assume "stdout_ready cfg r (r_idx cfg) s = Running s'" "loop_inv cfg s'"
      then show "res_ok cfg (scan cfg rest ret s')"
        using stdout_ready_frame [of cfg r "r_idx cfg" s s'] kr by (intro next_ok) simp_all
    qed
    then show ?thesis using stdout kr by (simp add: a ik)
  next
    case usb
    have "res_ok cfg (usb_ready r s)"
      using assms Cons.prems(1) by (rule usb_ready_ok)
    then show ?thesis using usb by (simp add: a ik)
  qed
qed

lemma go_of_cond:
  assumes "loop_inv cfg s" "loop_cond s"
  shows "shutdown (usb_write_buf s) \<longrightarrow> buf_head (usb_write_buf s) = buf_tail (usb_write_buf s)"
proof (cases "0 \<le> write_ep cfg")
  case False
  then show ?thesis using assms(1) by (simp add: loop_inv_def write_ok_def)
next
  case True
  then have i: "unat (buf_tail (usb_write_buf s)) < USB_BUFS"
      "unat (buf_head (usb_write_buf s)) < USB_BUFS"
    using assms(1) by (simp_all add: loop_inv_def write_ok_def idx_ok_def)
  show ?thesis
  proof (intro impI, rule ccontr)
    assume sh: "shutdown (usb_write_buf s)"
      and "buf_head (usb_write_buf s) \<noteq> buf_tail (usb_write_buf s)"
    then have "buf_tail (usb_write_buf s) \<noteq> buf_head (usb_write_buf s)" by simp
    with i have "(buf_tail (usb_write_buf s) + 1) mod of_nat USB_BUFS = buf_head (usb_write_buf s)"
      by (rule word2_succ)
    then show False using assms(2) sh by (simp add: loop_cond_def)
  qed
qed

lemma loop_body_ok:
  assumes "wf_config cfg" "loop_inv cfg s" "loop_cond s"
  shows "res_ok cfg (loop_body cfg p s)"
proof (cases "poll p s")
  case None
  then show ?thesis by (simp add: loop_body_def res_ok_def)
next
  case (Some s1)
  note po = poll_ok [OF Some assms(2)]
  show ?thesis
  proof (cases "0 < poll_ret p")
    case False
    then show ?thesis
      using Some po(1) by (simp add: loop_body_def res_ok_def inv_log_stderr)
  next
    case True
    let ?rest = "zip [0 ..< length (fds s1)] (per_fd p)"
    have l: "length (per_fd p) = length (fds s1)" using po(3) True by simp
    have "res_ok cfg (scan cfg ?rest (poll_ret p) s1)"
    proof (rule scan_ok [OF assms(1) po(1), where k = 0])
      show "map fst ?rest = [0 ..< 0 + length ?rest]" using l by simp
      show "0 + length ?rest \<le> length (fds s1)" using l by simp
      show "\<forall>i. 0 \<le> i \<and> i < length (fds s1) \<longrightarrow> rev_ok (fds s1 ! i)"
        using po(4) True by simp
      show "0 = 0 \<longrightarrow> shutdown (usb_write_buf s1) \<longrightarrow>
            buf_head (usb_write_buf s1) = buf_tail (usb_write_buf s1)"
        using go_of_cond [OF assms(2,3)] po(2) by simp
    qed
    then show ?thesis using Some True by (simp add: loop_body_def)
  qed
qed

lemma main_loop_ok:
  assumes "wf_config cfg"
  shows "loop_inv cfg s \<Longrightarrow> res_ok cfg (main_loop cfg ps s)"
proof (induction ps arbitrary: s)
  case Nil
  then show ?case by (simp add: res_ok_def)
next
  case (Cons p ps)
  show ?case
  proof (cases "loop_cond s")
    case False
    then show ?thesis using Cons.prems by (simp add: res_ok_def)
  next
    case True
    have "res_ok cfg (case loop_body cfg p s of Running s' \<Rightarrow> main_loop cfg ps s' | x \<Rightarrow> x)"
      by (rule res_ok_bind [OF loop_body_ok [OF assms Cons.prems True]]) (rule Cons.IH)
    then show ?thesis using True by simp
  qed
qed

subsection \<open>Initialisation and whole runs\<close>

lemma init_write_queue_facts:
  assumes "init_write_queue cfg j e s = Running s1"
    and "fds s = []" "xfers s = []" "trace s = []"
  shows "usb_read_buf s1 = usb_read_buf s" "trace s1 = []"
    and "buf_head (usb_write_buf s1) = 0" "\<not> shutdown (usb_write_buf s1)"
      "\<not> error (usb_write_buf s1)"
    and "0 \<le> write_ep cfg \<Longrightarrow>
           buf_tail (usb_write_buf s1) = 1 \<and> pollfd (usb_write_buf s1) = Some 0
           \<and> usb_xfer (buf (usb_write_buf s1) 0) = 0
           \<and> fds s1 = [\<lparr>fd = STDIN_FILENO, events = POLLIN OR POLLHUP OR POLLERR,
                          revents = heap_revents j\<rparr>]
           \<and> length (xfers s1) = 1 \<and> \<not> in_flight (xfers s1 ! 0)
           \<and> user_data (xfers s1 ! 0) = None"
    and "\<not> 0 \<le> write_ep cfg \<Longrightarrow>
           buf_tail (usb_write_buf s1) = 0 \<and> fds s1 = [] \<and> xfers s1 = []"
proof -
  have u: "[0 ..< USB_BUFS - 1] = [0]" "[0 ..< USB_BUFS - Suc 0] = [0]"
    by (simp_all add: USB_BUFS_def)
  have v: "(of_nat (USB_BUFS - 1) :: 32 word) = 1" "(of_nat (USB_BUFS - Suc 0) :: 32 word) = 1"
    by (simp_all add: USB_BUFS_def)
  note d = init_write_queue_def non_blocking_def u v alloc_write_slot_def
    libusb_alloc_transfer_def malloc_def Let_def log_def
  show "usb_read_buf s1 = usb_read_buf s" "trace s1 = []"
      "buf_head (usb_write_buf s1) = 0" "\<not> shutdown (usb_write_buf s1)"
      "\<not> error (usb_write_buf s1)"
    using assms by (auto simp: d split: if_splits)
  show "buf_tail (usb_write_buf s1) = 1 \<and> pollfd (usb_write_buf s1) = Some 0
           \<and> usb_xfer (buf (usb_write_buf s1) 0) = 0
           \<and> fds s1 = [\<lparr>fd = STDIN_FILENO, events = POLLIN OR POLLHUP OR POLLERR,
                          revents = heap_revents j\<rparr>]
           \<and> length (xfers s1) = 1 \<and> \<not> in_flight (xfers s1 ! 0)
           \<and> user_data (xfers s1 ! 0) = None" if "0 \<le> write_ep cfg"
    using assms that by (auto simp: d split: if_splits)
  show "buf_tail (usb_write_buf s1) = 0 \<and> fds s1 = [] \<and> xfers s1 = []"
    if "\<not> 0 \<le> write_ep cfg"
    using assms that by (auto simp: d split: if_splits)
qed

lemma submit_reads_one:
  assumes "submit_reads cfg [i] rcs s = Running s4"
  shows "s4 = s\<lparr>xfers := xfers s @ [\<lparr>endpoint = word_of_int (read_ep cfg),
                 buffer = heap_next s, length_x = int USB_XFER_SZ, actual_length = 0,
                 status = LIBUSB_TRANSFER_COMPLETED, user_data = Some ReadQ, in_flight = True\<rparr>],
               heap_next := Suc (heap_next s),
               trace := Submit (Some ReadQ) (length (xfers s)) (int USB_XFER_SZ) # trace s\<rparr>"
  using assms
  by (cases rcs)
     (auto simp: libusb_alloc_transfer_def malloc_def Let_def log_def
        libusb_fill_bulk_transfer_def libusb_submit_transfer_def split: if_splits)

lemma init_read_queue_facts:
  assumes "init_read_queue cfg j e s1 = Running s2" and "trace s1 = []"
  shows "usb_write_buf s2 = usb_write_buf s1"
    and "buf_head (usb_read_buf s2) = 0" "buf_tail (usb_read_buf s2) = 0"
      "\<not> shutdown (usb_read_buf s2)" "\<not> error (usb_read_buf s2)"
    and "0 \<le> read_ep cfg \<Longrightarrow>
           pollfd (usb_read_buf s2) = Some (length (fds s1))
           \<and> fds s2 = fds s1 @ [\<lparr>fd = STDOUT_FILENO, events = POLLHUP OR POLLERR,
                                   revents = heap_revents j\<rparr>]
           \<and> xfers s2 = xfers s1 @ [\<lparr>endpoint = word_of_int (read_ep cfg),
                 buffer = heap_next s1, length_x = int USB_XFER_SZ, actual_length = 0,
                 status = LIBUSB_TRANSFER_COMPLETED, user_data = Some ReadQ, in_flight = True\<rparr>]
           \<and> trace s2 = [Submit (Some ReadQ) (length (xfers s1)) (int USB_XFER_SZ)]"
    and "\<not> 0 \<le> read_ep cfg \<Longrightarrow> fds s2 = fds s1 \<and> xfers s2 = xfers s1 \<and> trace s2 = []"
proof -
  have u: "[0 ..< USB_BUFS - 1] = [0]" "[0 ..< USB_BUFS - Suc 0] = [0]"
    by (simp_all add: USB_BUFS_def)
  note d = init_read_queue_def non_blocking_def u Let_def log_def
  show "usb_write_buf s2 = usb_write_buf s1"
      "buf_head (usb_read_buf s2) = 0" "buf_tail (usb_read_buf s2) = 0"
      "\<not> shutdown (usb_read_buf s2)" "\<not> error (usb_read_buf s2)"
    using assms by (auto simp: d split: if_splits result.splits dest!: submit_reads_one)
  show "pollfd (usb_read_buf s2) = Some (length (fds s1))
           \<and> fds s2 = fds s1 @ [\<lparr>fd = STDOUT_FILENO, events = POLLHUP OR POLLERR,
                                   revents = heap_revents j\<rparr>]
           \<and> xfers s2 = xfers s1 @ [\<lparr>endpoint = word_of_int (read_ep cfg),
                 buffer = heap_next s1, length_x = int USB_XFER_SZ, actual_length = 0,
                 status = LIBUSB_TRANSFER_COMPLETED, user_data = Some ReadQ, in_flight = True\<rparr>]
           \<and> trace s2 = [Submit (Some ReadQ) (length (xfers s1)) (int USB_XFER_SZ)]"
    if "0 \<le> read_ep cfg"
    using assms that by (auto simp: d split: if_splits result.splits dest!: submit_reads_one)
  show "fds s2 = fds s1 \<and> xfers s2 = xfers s1 \<and> trace s2 = []" if "\<not> 0 \<le> read_ep cfg"
    using assms that by (auto simp: d split: if_splits result.splits dest!: submit_reads_one)
qed


lemma main_init_ok:
  assumes "wf_config cfg" "main_init cfg j e = Running s0"
  shows "loop_inv cfg s0"
proof -
  let ?I = "\<lparr>usb_write_buf = stack_write j, usb_read_buf = stack_read j, fds = [],
                xfers = [], heap_next = 0, trace = []\<rparr>"
  obtain s1 s2 where s1: "init_write_queue cfg j e ?I = Running s1"
    and s2: "init_read_queue cfg j e s1 = Running s2"
    and s0: "s0 = s2\<lparr>fds := fds s2 @
                 map (\<lambda>(f, ev). \<lparr>fd = f, events = ev, revents = heap_revents j\<rparr>) (usb_fds cfg)\<rparr>"
    using assms(2) by (auto simp: main_init_def Let_def split: result.splits)
  have i: "fds ?I = []" "xfers ?I = []" "trace ?I = []" by simp_all
  note w = init_write_queue_facts [OF s1 i]
  have t1: "trace s1 = []" using w(2) by simp
  note r = init_read_queue_facts [OF s2 t1]
  have m: "map fd (map (\<lambda>(f, ev). \<lparr>fd = f, events = ev, revents = heap_revents j\<rparr>) (usb_fds cfg))
      = map fst (usb_fds cfg)"
    by (simp add: comp_def case_prod_beta)
  have ep: "0 \<le> read_ep cfg \<Longrightarrow>
      (word_of_int (read_ep cfg) :: 8 word) AND LIBUSB_ENDPOINT_DIR_MASK \<noteq> 0"
    using assms(1) by (simp add: wf_config_def)
  have pin: "(POLLIN OR POLLHUP OR POLLERR) AND POLLIN \<noteq> 0"
    and pout: "(POLLHUP OR POLLERR) AND POLLOUT = 0"
    by (simp_all add: POLLIN_def POLLOUT_def POLLHUP_def POLLERR_def)
  have one: "(1 :: 32 word) \<noteq> 0" "unat (1 :: 32 word) < USB_BUFS" "unat (0 :: 32 word) < USB_BUFS"
    by (simp_all add: USB_BUFS_def)
  show ?thesis
  proof (cases "0 \<le> write_ep cfg"; cases "0 \<le> read_ep cfg")
    assume c: "0 \<le> write_ep cfg" "0 \<le> read_ep cfg"
    show ?thesis
      using w(1-5) w(6) [OF c(1)] r(1-5) r(6) [OF c(2)] c m ep pin pout one
      by (simp add: s0 loop_inv_def shape_ok_def write_ok_def read_ok_def trace_ok_def
            idx_ok_def r_idx_def nth_append)
  next
    assume c: "0 \<le> write_ep cfg" "\<not> 0 \<le> read_ep cfg"
    show ?thesis
      using w(1-5) w(6) [OF c(1)] r(1-5) r(7) [OF c(2)] c m pin one
      by (simp add: s0 loop_inv_def shape_ok_def write_ok_def read_ok_def trace_ok_def
            idx_ok_def r_idx_def nth_append)
  next
    assume c: "\<not> 0 \<le> write_ep cfg" "0 \<le> read_ep cfg"
    show ?thesis
      using w(1-5) w(7) [OF c(1)] r(1-5) r(6) [OF c(2)] c m ep pout one
      by (simp add: s0 loop_inv_def shape_ok_def write_ok_def read_ok_def trace_ok_def
            idx_ok_def r_idx_def nth_append)
  next
    assume c: "\<not> 0 \<le> write_ep cfg" "\<not> 0 \<le> read_ep cfg"
    show ?thesis
      using w(1-5) w(7) [OF c(1)] r(1-5) r(7) [OF c(2)] c m one
      by (simp add: s0 loop_inv_def shape_ok_def write_ok_def read_ok_def trace_ok_def
            idx_ok_def r_idx_def nth_append)
  qed
qed

lemma main_ok:
  assumes "wf_config cfg" "main_init cfg j e = Running s0"
  shows "res_ok cfg (main cfg j e ps)"
  using main_loop_ok [OF assms(1) main_init_ok [OF assms]] assms(2) by (simp add: main_def)

section \<open>The trace grows, and exits from inside the loop are failures\<close>



lemma step_ok_refl [simp]: "step_ok s (Running s)"
  by (simp add: step_ok_def)

lemma trace_put_queue [simp]: "trace (put_queue q x s) = trace s"
  by (cases q) simp_all








lemma main_loop_running:
  "main_loop cfg ps s = Running s' \<Longrightarrow> loop_cond s'"
proof (induction ps arbitrary: s)
  case Nil
  then show ?case by (simp split: if_splits)
next
  case (Cons p ps)
  then show ?case by (auto split: if_splits result.splits)
qed



lemma main_loop_append:
  "\<not> is_running (main_loop cfg ps s) \<Longrightarrow> main_loop cfg (ps @ qs) s = main_loop cfg ps s"
proof (induction ps arbitrary: s)
  case Nil
  then show ?case by (cases qs) (simp_all split: if_splits)
next
  case (Cons p ps)
  then show ?case by (auto split: if_splits result.splits)
qed

lemma started_init: "started cfg j e \<Longrightarrow> \<exists>s0. main_init cfg j e = Running s0"
  by (cases "main_init cfg j e") (simp_all add: started_def)

lemma reach_inv:
  assumes "wf_config cfg" "started cfg j e" "state_of (main cfg j e ps) = Some s"
  shows "loop_inv cfg s"
proof -
  obtain s0 where "main_init cfg j e = Running s0" using started_init [OF assms(2)] by blast
  then have "res_ok cfg (main cfg j e ps)" using assms(1) by (intro main_ok)
  then show ?thesis
    using assms(3) by (cases "main cfg j e ps") (simp_all add: res_ok_def)
qed

section \<open>Properties of whole runs\<close>

lemma main_is_loop:
  assumes "main_init cfg j e = Running s0"
  shows "main cfg j e ps = main_loop cfg ps s0"
  using assms by (simp add: main_def)

lemma queue_put_queue [simp]: "queue q (put_queue q x s) = x"
  by (cases q) simp_all

lemma callback_sets_error:
  assumes "h < length (xfers s)" "user_data (xfers s ! h) = Some q"
    and "terminal (status (xfers s ! h))"
    and "buf_head (queue q s) \<noteq> (buf_tail (queue q s) + 1) mod of_nat USB_BUFS"
  shows "\<exists>s'. usb_callback h rc s = Running s' \<and> error (queue q s')"
  using assms by (cases "status (xfers s ! h)") (simp_all add: usb_callback_def Let_def)

subsection \<open>Failed completions\<close>

text \<open>
  Claim C7. A completion whose status is neither success nor timeout (transport error,
  cancelled, stalled, device removed, overflow) makes usb_callback set the error flag of
  the queue of the transfer. In every run from a well-formed command line, no transfer of
  a queue is submitted after a completion of that queue has failed; when the trace holds
  such a failed completion, the error flag of the queue is set and the run has ended: it
  is not waiting in poll, and answers for further iterations change nothing, so the
  iteration that delivered the completion was the last one.
\<close>

theorem terminal_completion_ends_loop:
  assumes "wf_config cfg" and "started cfg j e"
  shows "(\<forall>h rc s q. h < length (xfers s) \<and> user_data (xfers s ! h) = Some q
            \<and> terminal (status (xfers s ! h))
            \<and> buf_head (queue q s) \<noteq> (buf_tail (queue q s) + 1) mod of_nat USB_BUFS
          \<longrightarrow> (\<exists>s'. usb_callback h rc s = Running s' \<and> error (queue q s')))
       \<and> (\<forall>s q. state_of (main cfg j e ps) = Some s \<longrightarrow>
            quiet_after_failure q (trace s)
            \<and> (list_ex (is_failure q) (trace s) \<longrightarrow>
                 error (queue q s) \<and> \<not> is_running (main cfg j e ps)
                 \<and> (\<forall>qs. main cfg j e (ps @ qs) = main cfg j e ps)))"
proof (intro conjI allI impI)
  fix h rc s q
  assume "h < length (xfers s) \<and> user_data (xfers s ! h) = Some q
            \<and> terminal (status (xfers s ! h))
            \<and> buf_head (queue q s) \<noteq> (buf_tail (queue q s) + 1) mod of_nat USB_BUFS"
  then show "\<exists>s'. usb_callback h rc s = Running s' \<and> error (queue q s')"
    by (intro callback_sets_error) simp_all
next
  fix s q
  assume st: "state_of (main cfg j e ps) = Some s"
  have t: "trace_ok cfg s" using reach_inv [OF assms st] by (simp add: loop_inv_def)
  show "quiet_after_failure q (trace s)" using t by (cases q) (simp_all add: trace_ok_def)
  assume f: "list_ex (is_failure q) (trace s)"
  show err: "error (queue q s)" using t f by (cases q) (simp_all add: trace_ok_def)
  obtain s0 where s0: "main_init cfg j e = Running s0" using started_init [OF assms(2)] by blast
  show nr: "\<not> is_running (main cfg j e ps)"
  proof
    assume "is_running (main cfg j e ps)"
    then have r: "main cfg j e ps = Running s" using st by (cases "main cfg j e ps") simp_all
    then have "loop_cond s" using main_loop_running [of cfg ps s0 s] s0 by (simp add: main_def)
    then show False using err by (cases q) (simp_all add: loop_cond_def)
  qed
  fix qs
  show "main cfg j e (ps @ qs) = main cfg j e ps"
    using nr main_loop_append [of cfg ps s0 qs] s0 by (simp add: main_def)
qed

theorem terminal_completion_ends_loop_witness:
  "(case main cfg_read_only garbage init_ok
           [one_ready [idle, usb_event 0 LIBUSB_TRANSFER_STALL 0]] of
      Exited c s \<Rightarrow> list_ex (is_failure ReadQ) (trace s) \<and> error (usb_read_buf s)
          \<and> quiet_after_failure ReadQ (trace s)
    | _ \<Rightarrow> False)
   \<and> main cfg_read_only garbage init_ok
        ([one_ready [idle, usb_event 0 LIBUSB_TRANSFER_STALL 0]]
         @ [one_ready [io_event POLLERR 0 0, idle]])
     = main cfg_read_only garbage init_ok [one_ready [idle, usb_event 0 LIBUSB_TRANSFER_STALL 0]]"
proof -
  let ?ps = "[one_ready [idle, usb_event 0 LIBUSB_TRANSFER_STALL 0]]"
  let ?m = "main cfg_read_only garbage init_ok ?ps"
  have w: "wf_config cfg_read_only" by code_simp
  have s: "started cfg_read_only garbage init_ok" by code_simp
  have "case ?m of Exited c s \<Rightarrow> list_ex (is_failure ReadQ) (trace s) | _ \<Rightarrow> False"
    by code_simp
  then obtain c s where m: "?m = Exited c s" and f: "list_ex (is_failure ReadQ) (trace s)"
    by (cases ?m) simp_all
  have st: "state_of ?m = Some s" using m by simp
  have "quiet_after_failure ReadQ (trace s)
      \<and> (list_ex (is_failure ReadQ) (trace s) \<longrightarrow>
            error (queue ReadQ s) \<and> \<not> is_running ?m
            \<and> (\<forall>qs. main cfg_read_only garbage init_ok (?ps @ qs) = ?m))"
    using terminal_completion_ends_loop [OF w s, of ?ps] st by blast
  then show ?thesis using f m by simp
qed

subsection \<open>One buffer for each direction\<close>

lemma main_init_allocs:
  assumes "main_init cfg j e = Running s0"
  shows "length (xfers s0) = (if 0 \<le> write_ep cfg then USB_BUFS - 1 else 0)
                             + (if 0 \<le> read_ep cfg then USB_BUFS - 1 else 0)"
    and "heap_next s0 = (if 0 \<le> write_ep cfg then USB_BUFS - 1 else 0)
                       + (if 0 \<le> read_ep cfg then USB_BUFS - 1 else 0)"
proof -
  have u: "[0 ..< USB_BUFS - 1] = [0]" "[0 ..< USB_BUFS - Suc 0] = [0]"
    by (simp_all add: USB_BUFS_def)
  note d = main_init_def init_write_queue_def init_read_queue_def non_blocking_def u
    alloc_write_slot_def libusb_alloc_transfer_def malloc_def Let_def log_def
  show "length (xfers s0) = (if 0 \<le> write_ep cfg then USB_BUFS - 1 else 0)
                             + (if 0 \<le> read_ep cfg then USB_BUFS - 1 else 0)"
    using assms
    by (auto simp: d USB_BUFS_def split: if_splits result.splits dest!: submit_reads_one)
  show "heap_next s0 = (if 0 \<le> write_ep cfg then USB_BUFS - 1 else 0)
                       + (if 0 \<le> read_ep cfg then USB_BUFS - 1 else 0)"
    using assms
    by (auto simp: d USB_BUFS_def split: if_splits result.splits dest!: submit_reads_one)
qed

lemma occupied_le: "occupied q \<le> USB_BUFS - 1"
proof -
  have "unat ((buf_tail q - buf_head q) mod 2) = unat (buf_tail q - buf_head q) mod 2"
    by (simp add: unat_mod)
  then show ?thesis by (simp add: occupied_def USB_BUFS_def)
qed

lemma occupied_empty: "buf_head q = buf_tail q \<Longrightarrow> occupied q = 0"
  by (simp add: occupied_def)

lemma list1: "length xs = Suc 0 \<Longrightarrow> xs = [xs ! 0]"
  by (cases xs) simp_all

lemma list2: "length xs = Suc (Suc 0) \<Longrightarrow> xs = [xs ! 0, xs ! 1]"
  by (cases xs; cases "tl xs") simp_all

lemma count_bound:
  assumes "loop_inv cfg s"
  shows "in_flight_count q s + occupied (queue q s) \<le> 1"
proof -
  have sh: "shape_ok cfg s" and w: "write_ok cfg s" and r: "read_ok cfg s"
    using assms by (simp_all add: loop_inv_def)
  have o: "occupied (queue q s) \<le> 1" using occupied_le [of "queue q s"] by (simp add: USB_BUFS_def)
  show ?thesis
  proof (cases "0 \<le> write_ep cfg"; cases "0 \<le> read_ep cfg")
    assume c: "0 \<le> write_ep cfg" "0 \<le> read_ep cfg"
    then have "length (xfers s) = Suc (Suc 0)" using sh by (simp add: shape_ok_def)
    then have x: "xfers s = [xfers s ! 0, xfers s ! 1]" by (rule list2)
    have "in_flight_count q s = 0 \<or> (in_flight_count q s \<le> 1 \<and> occupied (queue q s) = 0)"
      using w r c
      apply (subst (1 2) in_flight_count_def)
      apply (subst (1 2) x)
      apply (cases q)
      apply (auto simp: write_ok_def read_ok_def r_idx_def occupied_empty)
      done
    then show ?thesis using o by auto
  next
    assume c: "0 \<le> write_ep cfg" "\<not> 0 \<le> read_ep cfg"
    then have "length (xfers s) = Suc 0" using sh by (simp add: shape_ok_def)
    then have x: "xfers s = [xfers s ! 0]" by (rule list1)
    have "in_flight_count q s = 0 \<or> (in_flight_count q s \<le> 1 \<and> occupied (queue q s) = 0)"
      using w r c
      apply (subst (1 2) in_flight_count_def)
      apply (subst (1 2) x)
      apply (cases q)
      apply (auto simp: write_ok_def read_ok_def r_idx_def occupied_empty)
      done
    then show ?thesis using o by auto
  next
    assume c: "\<not> 0 \<le> write_ep cfg" "0 \<le> read_ep cfg"
    then have "length (xfers s) = Suc 0" using sh by (simp add: shape_ok_def)
    then have x: "xfers s = [xfers s ! 0]" by (rule list1)
    have "in_flight_count q s = 0 \<or> (in_flight_count q s \<le> 1 \<and> occupied (queue q s) = 0)"
      using w r c
      apply (subst (1 2) in_flight_count_def)
      apply (subst (1 2) x)
      apply (cases q)
      apply (auto simp: write_ok_def read_ok_def r_idx_def occupied_empty)
      done
    then show ?thesis using o by auto
  next
    assume c: "\<not> 0 \<le> write_ep cfg" "\<not> 0 \<le> read_ep cfg"
    then have "xfers s = []" using sh by (simp add: shape_ok_def)
    then show ?thesis using o by (simp add: in_flight_count_def)
  qed
qed

text \<open>
  Claim C10. The set-up allocates USB_BUFS - 1 = 1 transfer and one data buffer for each
  enabled direction and none later. In every state of a run, for each queue, the number
  of its transfers in flight plus the number of buffers in the queue is at most one: a
  buffer is never in flight while another one is queued.
\<close>

theorem one_buffer_per_direction:
  assumes "wf_config cfg" and "started cfg j e"
  shows "(\<forall>s0. main_init cfg j e = Running s0 \<longrightarrow>
            length (xfers s0) = (if 0 \<le> write_ep cfg then USB_BUFS - 1 else 0)
                                + (if 0 \<le> read_ep cfg then USB_BUFS - 1 else 0)
            \<and> heap_next s0 = (if 0 \<le> write_ep cfg then USB_BUFS - 1 else 0)
                                + (if 0 \<le> read_ep cfg then USB_BUFS - 1 else 0))
       \<and> (\<forall>s q. state_of (main cfg j e ps) = Some s \<longrightarrow>
            length (xfers s) = (if 0 \<le> write_ep cfg then USB_BUFS - 1 else 0)
                                + (if 0 \<le> read_ep cfg then USB_BUFS - 1 else 0)
            \<and> in_flight_count q s + occupied (queue q s) \<le> 1)"
proof (intro conjI allI impI)
  fix s0 assume "main_init cfg j e = Running s0"
  then show "length (xfers s0) = (if 0 \<le> write_ep cfg then USB_BUFS - 1 else 0)
                                + (if 0 \<le> read_ep cfg then USB_BUFS - 1 else 0)"
    and "heap_next s0 = (if 0 \<le> write_ep cfg then USB_BUFS - 1 else 0)
                                + (if 0 \<le> read_ep cfg then USB_BUFS - 1 else 0)"
    by (rule main_init_allocs)+
next
  fix s q assume st: "state_of (main cfg j e ps) = Some s"
  have i: "loop_inv cfg s" using assms st by (rule reach_inv)
  then show "length (xfers s) = (if 0 \<le> write_ep cfg then USB_BUFS - 1 else 0)
                                + (if 0 \<le> read_ep cfg then USB_BUFS - 1 else 0)"
    by (simp add: loop_inv_def shape_ok_def USB_BUFS_def)
  show "in_flight_count q s + occupied (queue q s) \<le> 1"
    using i by (rule count_bound)
qed

theorem one_buffer_per_direction_witness:
  "(case main_init cfg_both garbage init_ok of
      Running s0 \<Rightarrow> length (xfers s0) = 2 \<and> heap_next s0 = 2
    | _ \<Rightarrow> False)
   \<and> (case main cfg_both garbage init_ok [one_ready [io_event POLLIN 5 0, idle, idle]] of
        Running s \<Rightarrow> length (xfers s) = 2
          \<and> in_flight_count WriteQ s + occupied (usb_write_buf s) \<le> 1
          \<and> in_flight_count ReadQ s + occupied (usb_read_buf s) \<le> 1
          \<and> in_flight_count WriteQ s = 1 \<and> in_flight_count ReadQ s = 1
      | _ \<Rightarrow> False)"
proof -
  let ?ps = "[one_ready [io_event POLLIN 5 0, idle, idle]]"
  let ?m = "main cfg_both garbage init_ok ?ps"
  have w: "wf_config cfg_both" by code_simp
  have st: "started cfg_both garbage init_ok" by code_simp
  note T = one_buffer_per_direction [OF w st, of ?ps]
  obtain s0 where s0: "main_init cfg_both garbage init_ok = Running s0"
    using started_init [OF st] by blast
  have "case ?m of Running s \<Rightarrow> in_flight_count WriteQ s = 1 \<and> in_flight_count ReadQ s = 1
      | _ \<Rightarrow> False"
    by code_simp
  then obtain s where m: "?m = Running s"
    and c: "in_flight_count WriteQ s = 1" "in_flight_count ReadQ s = 1"
    by (cases ?m) simp_all
  have a: "length (xfers s0) = 2 \<and> heap_next s0 = 2"
    using T s0 by (simp add: cfg_both_def USB_BUFS_def)
  have "\<forall>q. length (xfers s) = 2 \<and> in_flight_count q s + occupied (queue q s) \<le> 1"
    using T m by (simp add: cfg_both_def USB_BUFS_def)
  then have b: "length (xfers s) = 2"
      "in_flight_count WriteQ s + occupied (queue WriteQ s) \<le> 1"
      "in_flight_count ReadQ s + occupied (queue ReadQ s) \<le> 1"
    by blast+
  show ?thesis using s0 a m b c by simp
qed

subsection \<open>Reading only\<close>




subsection \<open>The assertions on the queues\<close>

text \<open>
  Claim C5, as the claim states it, is false. The loop takes the buffer at the head for a
  read exactly when the outbound queue holds its N - 1 = 1 buffer: usbcat -r 0x81 -w 2
  starts with one buffer in the outbound queue and, told that standard input is readable,
  reads 5 bytes into it and submits it. And the assertion of line 455 can fail: usbcat
  -r 0x81 is told that standard output has POLLERR while the inbound queue is empty.
\<close>

theorem read_taken_at_full_occupancy:
  "(case main_init cfg_both garbage init_ok of
      Running s \<Rightarrow>
        occupied (usb_write_buf s) = USB_BUFS - 1
        \<and> (case loop_body cfg_both (one_ready [io_event POLLIN 5 0, idle, idle]) s of
             Running s' \<Rightarrow> trace s' = [Submit (Some WriteQ) 0 5, Read 5] @ trace s
           | _ \<Rightarrow> False)
    | _ \<Rightarrow> False)
   \<and> (case main cfg_read_only garbage init_ok [one_ready [io_event POLLERR 0 0, idle]] of
        AssertFailed l s \<Rightarrow> l = 455 \<and> buf_head (usb_read_buf s) = buf_tail (usb_read_buf s)
      | _ \<Rightarrow> False)"
  by code_simp

text \<open>
  Claim C5, amended. The statement is for the command lines that are well formed: the
  read endpoint is an IN endpoint (bit 7 set), the write endpoint is an OUT endpoint (bit
  7 clear), and the descriptors of libusb are not those of the standard streams. In every
  state of a run from such a command line that has reached the loop, head and tail of
  both queues are below USB_BUFS, and for each queue the transfers in flight and the
  occupied slots are together at most N - 1 (the number of occupied slots alone, a
  remainder modulo N, is at most N - 1 whatever the queue holds); a completion can only
  be delivered for a queue (a transfer of it is in flight) when fewer than N - 1 of its
  slots are occupied; standard input is polled for reading only while the outbound queue
  is not empty and standard output is polled for writing only while the inbound queue is
  not empty, so the loop takes the buffer at the head from a queue that holds one. No
  run ends in a failed assertion of usb_callback (lines 79 and 90) or of the block for
  standard input (line 402), nor in an invalid pointer; a run that ends in the assertion
  of line 455 was told of standard output without POLLOUT.
\<close>

theorem queue_assertions:
  assumes "wf_config cfg" and "started cfg j e"
  shows "(\<forall>s. state_of (main cfg j e ps) = Some s \<longrightarrow>
            occupied (usb_write_buf s) \<le> USB_BUFS - 1
            \<and> occupied (usb_read_buf s) \<le> USB_BUFS - 1
            \<and> idx_ok (usb_write_buf s) \<and> idx_ok (usb_read_buf s)
            \<and> (\<forall>q. 0 < in_flight_count q s \<longrightarrow> occupied (queue q s) \<noteq> USB_BUFS - 1)
            \<and> (0 \<le> write_ep cfg \<and> events (fds s ! 0) AND POLLIN \<noteq> 0 \<longrightarrow>
                 buf_head (usb_write_buf s) \<noteq> buf_tail (usb_write_buf s))
            \<and> (0 \<le> read_ep cfg \<and> events (fds s ! r_idx cfg) AND POLLOUT \<noteq> 0 \<longrightarrow>
                 buf_head (usb_read_buf s) \<noteq> buf_tail (usb_read_buf s))
            \<and> (\<forall>q. in_flight_count q s + occupied (queue q s) \<le> USB_BUFS - 1))
       \<and> (\<forall>l s. main cfg j e ps = AssertFailed l s \<longrightarrow>
            l = 455 \<and> revents (fds s ! r_idx cfg) AND POLLOUT = 0)
       \<and> (\<forall>s. main cfg j e ps \<noteq> Fault s)"
proof -
  obtain s0 where "main_init cfg j e = Running s0" using started_init [OF assms(2)] by blast
  then have ok: "res_ok cfg (main cfg j e ps)" using assms(1) by (intro main_ok)
  have a: "occupied (usb_write_buf s) \<le> USB_BUFS - 1
            \<and> occupied (usb_read_buf s) \<le> USB_BUFS - 1
            \<and> idx_ok (usb_write_buf s) \<and> idx_ok (usb_read_buf s)
            \<and> (\<forall>q. 0 < in_flight_count q s \<longrightarrow> occupied (queue q s) \<noteq> USB_BUFS - 1)
            \<and> (0 \<le> write_ep cfg \<and> events (fds s ! 0) AND POLLIN \<noteq> 0 \<longrightarrow>
                 buf_head (usb_write_buf s) \<noteq> buf_tail (usb_write_buf s))
            \<and> (0 \<le> read_ep cfg \<and> events (fds s ! r_idx cfg) AND POLLOUT \<noteq> 0 \<longrightarrow>
                 buf_head (usb_read_buf s) \<noteq> buf_tail (usb_read_buf s))
            \<and> (\<forall>q. in_flight_count q s + occupied (queue q s) \<le> USB_BUFS - 1)"
    if st: "state_of (main cfg j e ps) = Some s" for s
  proof -
    have i: "loop_inv cfg s" using assms st by (rule reach_inv)
    have w: "write_ok cfg s" and r: "read_ok cfg s" using i by (simp_all add: loop_inv_def)
    have "idx_ok (usb_write_buf s)"
      using w by (cases "0 \<le> write_ep cfg") (simp_all add: write_ok_def idx_ok_def USB_BUFS_def)
    moreover have "idx_ok (usb_read_buf s)"
      using r by (cases "0 \<le> read_ep cfg") (simp_all add: read_ok_def idx_ok_def USB_BUFS_def)
    moreover have "occupied (queue q s) \<noteq> USB_BUFS - 1" if "0 < in_flight_count q s" for q
      using count_bound [OF i, of q] that by (simp add: USB_BUFS_def)
    moreover have "buf_head (usb_write_buf s) \<noteq> buf_tail (usb_write_buf s)"
      if "0 \<le> write_ep cfg \<and> events (fds s ! 0) AND POLLIN \<noteq> 0"
      using w that by (auto simp: write_ok_def)
    moreover have "buf_head (usb_read_buf s) \<noteq> buf_tail (usb_read_buf s)"
      if "0 \<le> read_ep cfg \<and> events (fds s ! r_idx cfg) AND POLLOUT \<noteq> 0"
      using r that by (auto simp: read_ok_def)
    moreover have "in_flight_count q s + occupied (queue q s) \<le> USB_BUFS - 1" for q
      using count_bound [OF i, of q] by (simp add: USB_BUFS_def)
    ultimately show ?thesis using occupied_le by blast
  qed
  have b: "l = 455 \<and> revents (fds s ! r_idx cfg) AND POLLOUT = 0"
    if "main cfg j e ps = AssertFailed l s" for l s
    using ok that by (simp add: res_ok_def)
  have c: "main cfg j e ps \<noteq> Fault s" for s
    using ok by (auto simp: res_ok_def)
  show ?thesis using a b c by blast
qed

theorem queue_assertions_witness:
  "(case main cfg_both garbage init_ok [one_ready [io_event POLLIN 5 0, idle, idle]] of
      Running s \<Rightarrow>
        occupied (usb_write_buf s) \<le> USB_BUFS - 1 \<and> occupied (usb_read_buf s) \<le> USB_BUFS - 1
        \<and> idx_ok (usb_write_buf s) \<and> idx_ok (usb_read_buf s)
        \<and> 0 < in_flight_count WriteQ s \<and> occupied (usb_write_buf s) \<noteq> USB_BUFS - 1
        \<and> in_flight_count WriteQ s + occupied (usb_write_buf s) \<le> USB_BUFS - 1
        \<and> in_flight_count ReadQ s + occupied (usb_read_buf s) \<le> USB_BUFS - 1
    | _ \<Rightarrow> False)"
proof -
  let ?ps = "[one_ready [io_event POLLIN 5 0, idle, idle]]"
  let ?m = "main cfg_both garbage init_ok ?ps"
  have w: "wf_config cfg_both" by code_simp
  have st: "started cfg_both garbage init_ok" by code_simp
  have "case ?m of Running s \<Rightarrow> 0 < in_flight_count WriteQ s | _ \<Rightarrow> False" by code_simp
  then obtain s where m: "?m = Running s" and c: "0 < in_flight_count WriteQ s"
    by (cases ?m) simp_all
  have s: "state_of ?m = Some s" using m by simp
  have "occupied (usb_write_buf s) \<le> USB_BUFS - 1
            \<and> occupied (usb_read_buf s) \<le> USB_BUFS - 1
            \<and> idx_ok (usb_write_buf s) \<and> idx_ok (usb_read_buf s)
            \<and> (\<forall>q. 0 < in_flight_count q s \<longrightarrow> occupied (queue q s) \<noteq> USB_BUFS - 1)
            \<and> (0 \<le> write_ep cfg_both \<and> events (fds s ! 0) AND POLLIN \<noteq> 0 \<longrightarrow>
                 buf_head (usb_write_buf s) \<noteq> buf_tail (usb_write_buf s))
            \<and> (0 \<le> read_ep cfg_both \<and> events (fds s ! r_idx cfg_both) AND POLLOUT \<noteq> 0 \<longrightarrow>
                 buf_head (usb_read_buf s) \<noteq> buf_tail (usb_read_buf s))
            \<and> (\<forall>q. in_flight_count q s + occupied (queue q s) \<le> USB_BUFS - 1)"
    using queue_assertions [OF w st, of ?ps, THEN conjunct1, THEN spec, of s, THEN mp, OF s] .
  then have "occupied (usb_write_buf s) \<le> USB_BUFS - 1
            \<and> occupied (usb_read_buf s) \<le> USB_BUFS - 1
            \<and> idx_ok (usb_write_buf s) \<and> idx_ok (usb_read_buf s)
            \<and> occupied (queue WriteQ s) \<noteq> USB_BUFS - 1
            \<and> in_flight_count WriteQ s + occupied (queue WriteQ s) \<le> USB_BUFS - 1
            \<and> in_flight_count ReadQ s + occupied (queue ReadQ s) \<le> USB_BUFS - 1"
    using c by blast
  then show ?thesis using m c by simp
qed

subsection \<open>Interest masks\<close>

text \<open>
  Claim C6, as the claim states it, is false. usbcat -w 2 reads 5 bytes and submits them
  (the outbound queue is empty, standard input is no longer polled for reading), is told
  that standard input has hung up (the shutdown flag is set), and then gets the successful
  completion of the transfer: the callback puts the buffer back at the tail, the queue
  goes from empty to non-empty, a slot is free again, and POLLIN is not asserted.
\<close>

theorem shutdown_blocks_read_interest:
  "(case main cfg_write_only garbage init_ok
           [one_ready [io_event POLLIN 5 0, idle],
            one_ready [io_event POLLHUP 0 0, idle],
            one_ready [idle, usb_event 0 LIBUSB_TRANSFER_COMPLETED 5]] of
      Exited c s \<Rightarrow>
        hd (trace s) = Completion (Some WriteQ) 0 LIBUSB_TRANSFER_COMPLETED
        \<and> buf_head (usb_write_buf s) \<noteq> buf_tail (usb_write_buf s)
        \<and> events (fds s ! 0) AND POLLIN = 0
    | _ \<Rightarrow> False)"
  by code_simp

lemma fds_put_queue [simp]: "fds (put_queue q x s) = fds s"
  by (cases q) simp_all

lemma callback_interest:
  assumes "usb_callback h rc s = Running s'" "h < length (xfers s)"
    and "status (xfers s ! h) = LIBUSB_TRANSFER_COMPLETED"
    and "user_data (xfers s ! h) = Some q"
    and "buf_head (queue q s) = buf_tail (queue q s)"
    and "pollfd (queue q s) = Some p"
  shows "buf_tail (queue q s') = (buf_tail (queue q s) + 1) mod of_nat USB_BUFS"
    and "buf_head (queue q s') = buf_head (queue q s)"
    and "\<not> shutdown (queue q s) \<Longrightarrow>
           events (fds s' ! p) AND (if endpoint (xfers s ! h) AND LIBUSB_ENDPOINT_DIR_MASK \<noteq> 0
                                    then POLLOUT else POLLIN) \<noteq> 0"
    and "shutdown (queue q s) \<Longrightarrow> fds s' = fds s"
  using assms
  by (auto simp: usb_callback_def Let_def mask_set split: if_splits)

text \<open>
  Claim C6, amended. The statement is for the command lines that are well formed: the
  read endpoint is an IN endpoint (bit 7 set), the write endpoint is an OUT endpoint (bit
  7 clear), and the descriptors of libusb are not those of the standard streams. In every
  state of a run from such a command line that has reached the loop, standard output is
  polled for writing (POLLOUT) exactly when the inbound queue is not empty; standard
  input is polled for reading (POLLIN) only when the outbound queue is not empty, and
  always when it is not empty and not shut down. When usb_callback places a successful
  completion at the tail of an empty queue, the queue becomes non-empty, and the mask of
  the queue's descriptor (POLLOUT for a transfer on an IN endpoint, POLLIN for a transfer
  on an OUT endpoint) is asserted unless the queue is shut down, in which case the masks
  are left as they are.
\<close>

theorem interest_follows_queue:
  assumes "wf_config cfg" and "started cfg j e"
  shows "(\<forall>s. state_of (main cfg j e ps) = Some s \<longrightarrow>
            (0 \<le> read_ep cfg \<longrightarrow>
               (events (fds s ! r_idx cfg) AND POLLOUT \<noteq> 0
                  \<longleftrightarrow> buf_head (usb_read_buf s) \<noteq> buf_tail (usb_read_buf s)))
            \<and> (0 \<le> write_ep cfg \<longrightarrow>
                 (events (fds s ! 0) AND POLLIN \<noteq> 0 \<longrightarrow>
                    buf_head (usb_write_buf s) \<noteq> buf_tail (usb_write_buf s))
                 \<and> (buf_head (usb_write_buf s) \<noteq> buf_tail (usb_write_buf s)
                      \<and> \<not> shutdown (usb_write_buf s) \<longrightarrow>
                    events (fds s ! 0) AND POLLIN \<noteq> 0)))
       \<and> (\<forall>h rc s s' q p.
             usb_callback h rc s = Running s' \<and> h < length (xfers s)
             \<and> status (xfers s ! h) = LIBUSB_TRANSFER_COMPLETED
             \<and> user_data (xfers s ! h) = Some q
             \<and> buf_head (queue q s) = buf_tail (queue q s)
             \<and> pollfd (queue q s) = Some p \<longrightarrow>
             buf_tail (queue q s') = (buf_tail (queue q s) + 1) mod of_nat USB_BUFS
             \<and> buf_head (queue q s') = buf_head (queue q s)
             \<and> (if shutdown (queue q s) then fds s' = fds s
                 else events (fds s' ! p)
                        AND (if endpoint (xfers s ! h) AND LIBUSB_ENDPOINT_DIR_MASK \<noteq> 0
                             then POLLOUT else POLLIN) \<noteq> 0))"
proof (intro conjI allI impI)
  fix s assume st: "state_of (main cfg j e ps) = Some s"
  have i: "loop_inv cfg s" using assms st by (rule reach_inv)
  then have w: "write_ok cfg s" and r: "read_ok cfg s" by (simp_all add: loop_inv_def)
  {
    assume "0 \<le> read_ep cfg"
    then show "events (fds s ! r_idx cfg) AND POLLOUT \<noteq> 0
                  \<longleftrightarrow> buf_head (usb_read_buf s) \<noteq> buf_tail (usb_read_buf s)"
      using r by (auto simp: read_ok_def)
  }
  {
    assume c: "0 \<le> write_ep cfg"
    {
      assume "events (fds s ! 0) AND POLLIN \<noteq> 0"
      then show "buf_head (usb_write_buf s) \<noteq> buf_tail (usb_write_buf s)"
        using w c by (auto simp: write_ok_def)
    }
    {
      assume "buf_head (usb_write_buf s) \<noteq> buf_tail (usb_write_buf s)
                      \<and> \<not> shutdown (usb_write_buf s)"
      then show "events (fds s ! 0) AND POLLIN \<noteq> 0"
        using w c by (auto simp: write_ok_def)
    }
  }
next
  fix h rc s s' q p
  assume "usb_callback h rc s = Running s' \<and> h < length (xfers s)
             \<and> status (xfers s ! h) = LIBUSB_TRANSFER_COMPLETED
             \<and> user_data (xfers s ! h) = Some q
             \<and> buf_head (queue q s) = buf_tail (queue q s)
             \<and> pollfd (queue q s) = Some p"
  then have a: "usb_callback h rc s = Running s'" "h < length (xfers s)"
      "status (xfers s ! h) = LIBUSB_TRANSFER_COMPLETED" "user_data (xfers s ! h) = Some q"
      "buf_head (queue q s) = buf_tail (queue q s)" "pollfd (queue q s) = Some p"
    by blast+
  note c = callback_interest [OF a]
  show "buf_tail (queue q s') = (buf_tail (queue q s) + 1) mod of_nat USB_BUFS"
    by (rule c(1))
  show "buf_head (queue q s') = buf_head (queue q s)"
    by (rule c(2))
  show "if shutdown (queue q s) then fds s' = fds s
        else events (fds s' ! p)
               AND (if endpoint (xfers s ! h) AND LIBUSB_ENDPOINT_DIR_MASK \<noteq> 0
                    then POLLOUT else POLLIN) \<noteq> 0"
  proof (cases "shutdown (queue q s)")
    case True
    with c(4) have "fds s' = fds s" by blast
    with True show ?thesis by simp
  next
    case False
    with c(3) have "events (fds s' ! p)
               AND (if endpoint (xfers s ! h) AND LIBUSB_ENDPOINT_DIR_MASK \<noteq> 0
                    then POLLOUT else POLLIN) \<noteq> 0" by blast
    with False show ?thesis by simp
  qed
qed


theorem interest_follows_queue_witness:
  "(case main cfg_both garbage init_ok
           [one_ready [io_event POLLIN 5 0, idle, idle],
            one_ready [idle, idle, usb_event 1 LIBUSB_TRANSFER_COMPLETED 10]] of
      Running s \<Rightarrow>
        buf_head (usb_read_buf s) \<noteq> buf_tail (usb_read_buf s)
        \<and> events (fds s ! 1) AND POLLOUT \<noteq> 0
        \<and> buf_head (usb_write_buf s) = buf_tail (usb_write_buf s)
        \<and> events (fds s ! 0) AND POLLIN = 0
    | _ \<Rightarrow> False)"
proof -
  let ?ps = "[one_ready [io_event POLLIN 5 0, idle, idle],
            one_ready [idle, idle, usb_event 1 LIBUSB_TRANSFER_COMPLETED 10]]"
  let ?m = "main cfg_both garbage init_ok ?ps"
  have w: "wf_config cfg_both" by code_simp
  have st: "started cfg_both garbage init_ok" by code_simp
  have "case ?m of Running s \<Rightarrow> buf_head (usb_read_buf s) \<noteq> buf_tail (usb_read_buf s)
      \<and> buf_head (usb_write_buf s) = buf_tail (usb_write_buf s) | _ \<Rightarrow> False" by code_simp
  then obtain s where m: "?m = Running s"
    and c: "buf_head (usb_read_buf s) \<noteq> buf_tail (usb_read_buf s)"
       "buf_head (usb_write_buf s) = buf_tail (usb_write_buf s)"
    by (cases ?m) simp_all
  have s: "state_of ?m = Some s" using m by simp
  have e: "0 \<le> read_ep cfg_both" "0 \<le> write_ep cfg_both" "r_idx cfg_both = 1"
    by (simp_all add: cfg_both_def r_idx_def)
  note T = interest_follows_queue [OF w st, of ?ps, THEN conjunct1, THEN spec, of s,
      THEN mp, OF s]
  have "events (fds s ! 1) AND POLLOUT \<noteq> 0"
    using T [THEN conjunct1, THEN mp, OF e(1)] c(1) by (simp add: e(3))
  moreover have "events (fds s ! 0) AND POLLIN = 0"
    using T [THEN conjunct2, THEN mp, OF e(2), THEN conjunct1] c(2) by blast
  ultimately have "buf_head (usb_read_buf s) \<noteq> buf_tail (usb_read_buf s)
        \<and> events (fds s ! 1) AND POLLOUT \<noteq> 0
        \<and> buf_head (usb_write_buf s) = buf_tail (usb_write_buf s)
        \<and> events (fds s ! 0) AND POLLIN = 0"
    using c by blast
  then show ?thesis unfolding m by simp
qed

subsection \<open>End of input\<close>











end
